theory Spec2Isabelle
  imports Main
begin

section \<open>Data model of the distance-vector simulator\<close>

text \<open>
  The embedding follows \<^verbatim>\<open>src/distancevector.cpp\<close>. Values of the C++ type
  \<^verbatim>\<open>int\<close> are integers, and \<open>int_range\<close> is the range of a 32-bit \<^verbatim>\<open>int\<close>. The
  only arithmetic of the program is the sum of two routing costs in \<^verbatim>\<open>doBellmanFordAlg\<close>;
  signed overflow has no defined result in C++, so a sum that leaves the range ends the
  modelled run with \<open>SignedOverflow\<close>.
\<close>

definition int_range :: "int \<Rightarrow> bool" where
  "int_range x = (-2147483648 \<le> x \<and> x \<le> 2147483647)"

record Link =
  node1 :: int
  node2 :: int
  pathCost :: int

record Message =
  sourceID :: int
  destinationID :: int
  message :: string

text \<open>
  \<^verbatim>\<open>std::map<int, std::pair<int,int>>\<close>: destination to (next hop, cost), kept in
  ascending key order with one entry per key. \<open>table_put\<close> is \<^verbatim>\<open>table[k] = v\<close>.
\<close>

type_synonym RoutingTable = "(int \<times> (int \<times> int)) list"

fun table_put :: "int \<Rightarrow> int \<times> int \<Rightarrow> RoutingTable \<Rightarrow> RoutingTable" where
  "table_put k v [] = [(k, v)]"
| "table_put k v ((k', v') # t) =
     (if k < k' then (k, v) # (k', v') # t
      else if k = k' then (k, v) # t
      else (k', v') # table_put k v t)"

text \<open>The constructor \<^verbatim>\<open>RoutingTable(myID, nodes)\<close>: one entry per node id.\<close>

definition RoutingTable :: "int \<Rightarrow> int list \<Rightarrow> RoutingTable" where
  "RoutingTable myID nodes =
     fold (\<lambda>i t. if i = myID then table_put i (i, 0) t else table_put i (-1, 9999) t) nodes []"

definition rt_addRoute :: "int \<Rightarrow> int \<Rightarrow> int \<Rightarrow> RoutingTable \<Rightarrow> RoutingTable" where
  "rt_addRoute dest nextHopID cost t = table_put dest (nextHopID, cost) t"

definition rt_contains :: "RoutingTable \<Rightarrow> int \<Rightarrow> bool" where
  "rt_contains t dest = (map_of t dest \<noteq> None)"

text \<open>
  \<^verbatim>\<open>getNextHop\<close> and \<^verbatim>\<open>getPathCost\<close> return the component of \<^verbatim>\<open>table.at(dest)\<close>
  when \<^verbatim>\<open>contains(dest)\<close> holds and \<open>-1\<close> otherwise: a case distinction on the lookup.
\<close>

definition rt_getNextHop :: "RoutingTable \<Rightarrow> int \<Rightarrow> int" where
  "rt_getNextHop t dest =
     (case map_of t dest of Some (h, c) \<Rightarrow> h | None \<Rightarrow> -1)"

definition rt_getPathCost :: "RoutingTable \<Rightarrow> int \<Rightarrow> int" where
  "rt_getPathCost t dest =
     (case map_of t dest of Some (h, c) \<Rightarrow> c | None \<Rightarrow> -1)"

record Router =
  ID :: int
  RT :: RoutingTable

text \<open>The constructor \<^verbatim>\<open>Router(id, nodes)\<close>.\<close>

definition mkRouter :: "int \<Rightarrow> int list \<Rightarrow> Router" where
  "mkRouter i nodes = \<lparr>ID = i, RT = RoutingTable i nodes\<rparr>"

definition addRoute :: "int \<Rightarrow> int \<Rightarrow> int \<Rightarrow> Router \<Rightarrow> Router" where
  "addRoute dest nextHopID cost r =
     r\<lparr>RT := rt_addRoute dest nextHopID cost (RT r)\<rparr>"

definition getNextHop :: "Router \<Rightarrow> int \<Rightarrow> int" where
  "getNextHop r dest = rt_getNextHop (RT r) dest"

definition getPathCost :: "Router \<Rightarrow> int \<Rightarrow> int" where
  "getPathCost r dest = rt_getPathCost (RT r) dest"

definition getID :: "Router \<Rightarrow> int" where
  "getID r = ID r"

text \<open>
  \<^verbatim>\<open>std::runtime_error("Router with the specified ID not found.")\<close> is the only
  exception the program throws; \<open>SignedOverflow\<close> marks a run that has left the defined
  behaviour of \<^verbatim>\<open>int\<close> addition.
\<close>

datatype error = RouterNotFound | SignedOverflow

text \<open>
  \<^verbatim>\<open>getRouterByID\<close> returns a reference into the vector: the model returns the
  position of the first router with the requested id, and the callers read and update the
  vector at that position.
\<close>

fun getRouterByID :: "Router list \<Rightarrow> int \<Rightarrow> error + nat" where
  "getRouterByID [] i = Inl RouterNotFound"
| "getRouterByID (r # rs) i =
     (if getID r = i then Inr 0
      else case getRouterByID rs i of Inl e \<Rightarrow> Inl e | Inr k \<Rightarrow> Inr (Suc k))"

text \<open>A loop over a container whose body may throw: the first exception ends the loop.\<close>

fun for_each :: "('a \<Rightarrow> 's \<Rightarrow> error + 's) \<Rightarrow> 'a list \<Rightarrow> 's \<Rightarrow> error + 's" where
  "for_each f [] s = Inr s"
| "for_each f (x # xs) s = (case f x s of Inl e \<Rightarrow> Inl e | Inr s' \<Rightarrow> for_each f xs s')"

section \<open>Topology: node-id set and link list\<close>

text \<open>
  \<^verbatim>\<open>std::set<int>\<close> is an ascending list without repetitions; \<open>nodes_insert\<close> is
  \<^verbatim>\<open>nodes.insert(x)\<close>, which leaves the set alone when \<open>x\<close> is already a member.
\<close>

definition nodes_insert :: "int \<Rightarrow> int list \<Rightarrow> int list" where
  "nodes_insert x nodes = (if x \<in> set nodes then nodes else insort x nodes)"

definition link_matches :: "Link \<Rightarrow> Link \<Rightarrow> bool" where
  "link_matches linkToRemove link =
     ((node1 link = node1 linkToRemove \<and> node2 link = node2 linkToRemove) \<or>
      (node1 link = node2 linkToRemove \<and> node2 link = node1 linkToRemove))"

text \<open>\<^verbatim>\<open>std::remove_if\<close> followed by \<^verbatim>\<open>erase\<close> keeps the other links in order.\<close>

definition removeLink :: "Link list \<Rightarrow> Link \<Rightarrow> Link list" where
  "removeLink links linkToRemove = filter (\<lambda>link. \<not> link_matches linkToRemove link) links"

text \<open>The loop \<^verbatim>\<open>for (id : nodes) routers.emplace_back(id, nodes)\<close>.\<close>

definition emplace_routers :: "int list \<Rightarrow> Router list \<Rightarrow> Router list" where
  "emplace_routers nodes routers = fold (\<lambda>i rs. rs @ [mkRouter i nodes]) nodes routers"

text \<open>
  The body of the loop that adds the direct routes of one link: two calls of
  \<^verbatim>\<open>getRouterByID(...).addRoute(...)\<close>, each of which may throw.
\<close>

definition addDirect :: "Link \<Rightarrow> Router list \<Rightarrow> error + Router list" where
  "addDirect link routers =
     (case getRouterByID routers (node1 link) of
        Inl e \<Rightarrow> Inl e
      | Inr i \<Rightarrow>
          (let routers1 = routers[i := addRoute (node2 link) (node2 link) (pathCost link) (routers ! i)]
           in case getRouterByID routers1 (node2 link) of
                Inl e \<Rightarrow> Inl e
              | Inr j \<Rightarrow>
                  Inr (routers1[j := addRoute (node1 link) (node1 link) (pathCost link) (routers1 ! j)])))"

text \<open>
  \<^verbatim>\<open>initTopology\<close> after the file has been read: \<open>parsed\<close> holds the records of the
  topology file, in order.
\<close>

definition readTopology :: "Link list \<Rightarrow> Link list \<times> int list \<Rightarrow> Link list \<times> int list" where
  "readTopology parsed st =
     fold (\<lambda>l (links, nodes).
             (links @ [\<lparr>node1 = node1 l, node2 = node2 l, pathCost = pathCost l\<rparr>],
              nodes_insert (node2 l) (nodes_insert (node1 l) nodes))) parsed st"

definition initTopology ::
  "Link list \<Rightarrow> Link list \<Rightarrow> int list \<Rightarrow> Router list \<Rightarrow> error + (Router list \<times> int list \<times> Link list)" where
  "initTopology parsed links nodes routers =
     (case readTopology parsed (links, nodes) of
        (links', nodes') \<Rightarrow>
          (case for_each addDirect links' (emplace_routers nodes' routers) of
             Inl e \<Rightarrow> Inl e
           | Inr routers' \<Rightarrow> Inr (routers', nodes', links')))"

definition applyChange ::
  "Link \<Rightarrow> Router list \<Rightarrow> int list \<Rightarrow> Link list \<Rightarrow> error + (Router list \<times> int list \<times> Link list)" where
  "applyChange change routers nodes links =
     (let nodes' = nodes_insert (node2 change) (nodes_insert (node1 change) nodes);
          links' = (if pathCost change = -999 then removeLink links change
                    else links @ [\<lparr>node1 = node1 change, node2 = node2 change, pathCost = pathCost change\<rparr>]);
          cleared = []
      in case for_each addDirect links' (emplace_routers nodes' cleared) of
           Inl e \<Rightarrow> Inl e
         | Inr routers' \<Rightarrow> Inr (routers', nodes', links'))"

section \<open>Convergence: \<^verbatim>\<open>doBellmanFordAlg\<close>\<close>

definition neighbourOf :: "int \<Rightarrow> Link \<Rightarrow> int" where
  "neighbourOf rid link =
     (if node1 link = rid then node2 link else if node2 link = rid then node1 link else -1)"

text \<open>
  The body of the loop over the links, for the router at position \<open>i\<close> and one
  destination. The state is the router vector, \<^verbatim>\<open>curPathCost\<close>, \<^verbatim>\<open>newNextHop\<close> and
  \<^verbatim>\<open>updated\<close>. The two calls \<^verbatim>\<open>getRouterByID(routers, neighbourID)\<close> see the same
  vector, so the second returns what the first did. The sum
  \<^verbatim>\<open>NeighbourPathCost + NeighbourToDestPathCost\<close> is evaluated first in the condition.
\<close>

fun relaxLink ::
  "nat \<Rightarrow> int \<Rightarrow> Link \<Rightarrow> Router list \<times> int \<times> int \<times> bool \<Rightarrow> error + (Router list \<times> int \<times> int \<times> bool)" where
  "relaxLink i dest link (routers, curPathCost, newNextHop, updated) =
     (let neighbourID = neighbourOf (getID (routers ! i)) link in
      if neighbourID = -1 \<or> neighbourID = dest then Inr (routers, curPathCost, newNextHop, updated)
      else case getRouterByID routers neighbourID of
        Inl e \<Rightarrow> Inl e
      | Inr j \<Rightarrow>
          if getNextHop (routers ! j) dest = getID (routers ! i)
          then Inr (routers, curPathCost, newNextHop, updated)
          else
            (let NeighbourPathCost = getPathCost (routers ! i) neighbourID;
                 NeighbourToDestPathCost = getPathCost (routers ! j) dest
             in if \<not> int_range (NeighbourPathCost + NeighbourToDestPathCost) then Inl SignedOverflow
                else if NeighbourPathCost + NeighbourToDestPathCost < curPathCost \<or>
                   (NeighbourPathCost + NeighbourToDestPathCost = curPathCost \<and> neighbourID < newNextHop)
                then Inr (routers[i := addRoute dest neighbourID
                                         (NeighbourPathCost + NeighbourToDestPathCost) (routers ! i)],
                          NeighbourPathCost + NeighbourToDestPathCost, neighbourID, True)
                else Inr (routers, curPathCost, newNextHop, updated)))"

text \<open>The body of the loop over the destinations: one scan of the links.\<close>

definition scanDest :: "Link list \<Rightarrow> nat \<Rightarrow> int \<Rightarrow> Router list \<times> bool \<Rightarrow> error + (Router list \<times> bool)" where
  "scanDest links i dest st =
     (case st of (routers, updated) \<Rightarrow>
        (case for_each (relaxLink i dest) links
                (routers, getPathCost (routers ! i) dest, -1, updated) of
           Inl e \<Rightarrow> Inl e
         | Inr (routers', curPathCost, newNextHop, updated') \<Rightarrow> Inr (routers', updated')))"

text \<open>The body of the loop over the routers.\<close>

definition scanRouter :: "int list \<Rightarrow> Link list \<Rightarrow> nat \<Rightarrow> Router list \<times> bool \<Rightarrow> error + (Router list \<times> bool)" where
  "scanRouter nodes links i st = for_each (scanDest links i) nodes st"

text \<open>One pass of the \<^verbatim>\<open>while\<close> body: \<^verbatim>\<open>updated = false\<close>, then every router in turn.\<close>

definition sweep :: "Router list \<Rightarrow> int list \<Rightarrow> Link list \<Rightarrow> error + (Router list \<times> bool)" where
  "sweep routers nodes links = for_each (scanRouter nodes links) [0..<length routers] (routers, False)"

text \<open>
  \<^verbatim>\<open>updated\<close> starts as \<^verbatim>\<open>true\<close>, so the loop is a pass followed by a test. The loop
  has no bound on its passes: \<open>None\<close> is a run that never returns, \<open>Some (Inl e)\<close> a run
  ended by an exception.
\<close>

partial_function (option) doBellmanFordAlg ::
  "Router list \<Rightarrow> int list \<Rightarrow> Link list \<Rightarrow> (error + Router list) option" where
  "doBellmanFordAlg routers nodes links =
     (case sweep routers nodes links of
        Inl e \<Rightarrow> Some (Inl e)
      | Inr (routers', updated) \<Rightarrow>
          if updated then doBellmanFordAlg routers' nodes links else Some (Inr routers'))"

declare doBellmanFordAlg.simps [code]

section \<open>Message delivery: \<^verbatim>\<open>sendMessages\<close>\<close>

text \<open>
  What the program writes for one message: the unreachable line, or the line with the cost
  and the hops. The formatting of the line is left to the output layer.
\<close>

datatype report =
  Unreachable int int string
| Delivered int int int "int list" string

text \<open>
  The \<^verbatim>\<open>while (currentID != message.destinationID)\<close> loop. It has no bound:
  \<open>None\<close> is a walk that never ends.
\<close>

partial_function (option) hopWalk ::
  "Router list \<Rightarrow> int \<Rightarrow> int \<Rightarrow> int list \<Rightarrow> (error + int list) option" where
  "hopWalk routers dest currentID hops =
     (if currentID \<noteq> dest
      then (case getRouterByID routers currentID of
              Inl e \<Rightarrow> Some (Inl e)
            | Inr k \<Rightarrow> hopWalk routers dest (getNextHop (routers ! k) dest) (hops @ [currentID]))
      else Some (Inr hops))"

declare hopWalk.simps [code]

text \<open>The body of the loop over the messages.\<close>

definition sendMessage :: "Router list \<Rightarrow> Message \<Rightarrow> (error + report) option" where
  "sendMessage routers m =
     (case getRouterByID routers (sourceID m) of
        Inl e \<Rightarrow> Some (Inl e)
      | Inr k \<Rightarrow>
          (let cost = getPathCost (routers ! k) (destinationID m) in
           if cost = 9999
           then Some (Inr (Unreachable (sourceID m) (destinationID m) (message m)))
           else (case hopWalk routers (destinationID m) (sourceID m) [] of
                   None \<Rightarrow> None
                 | Some (Inl e) \<Rightarrow> Some (Inl e)
                 | Some (Inr hops) \<Rightarrow>
                     Some (Inr (Delivered (sourceID m) (destinationID m) cost hops (message m))))))"

fun sendMessages :: "Router list \<Rightarrow> Message list \<Rightarrow> report list \<Rightarrow> (error + report list) option" where
  "sendMessages routers [] out = Some (Inr out)"
| "sendMessages routers (m # ms) out =
     (case sendMessage routers m of
        None \<Rightarrow> None
      | Some (Inl e) \<Rightarrow> Some (Inl e)
      | Some (Inr r) \<Rightarrow> sendMessages routers ms (out @ [r]))"

section \<open>Notions used in the statements\<close>

text \<open>
  The code shared by \<^verbatim>\<open>initTopology\<close> and \<^verbatim>\<open>applyChange\<close>: routers built from the
  node-id set into an empty vector, then the direct routes of every link.
\<close>

definition seedRouters :: "int list \<Rightarrow> Link list \<Rightarrow> error + Router list" where
  "seedRouters nodes links = for_each addDirect links (emplace_routers nodes [])"

text \<open>Every endpoint of a link is a known node id.\<close>

definition links_within :: "int list \<Rightarrow> Link list \<Rightarrow> bool" where
  "links_within nodes links = list_all (\<lambda>l. node1 l \<in> set nodes \<and> node2 l \<in> set nodes) links"

text \<open>The link records between the two endpoints of \<open>c\<close>, in either orientation.\<close>

definition links_between :: "Link \<Rightarrow> Link list \<Rightarrow> Link list" where
  "links_between c links = filter (link_matches c) links"

definition mkLink :: "int \<Rightarrow> int \<Rightarrow> int \<Rightarrow> Link" where
  "mkLink a b c = \<lparr>node1 = a, node2 = b, pathCost = c\<rparr>"

text \<open>
  The largest cost for which the sum of two costs is still an \<^verbatim>\<open>int\<close>: \<open>2^30 - 1\<close>.
\<close>

definition cost_limit :: int where
  "cost_limit = 1073741823"

text \<open>
  A topology in the range the program is written for: node ids are not negative (\<open>-1\<close>
  is the program's mark for "no neighbour" and "no next hop"), links join known nodes, and
  link costs are not negative and at most \<open>cost_limit\<close>.
\<close>

definition wf_topology :: "int list \<Rightarrow> Link list \<Rightarrow> bool" where
  "wf_topology nodes links =
     (list_all (\<lambda>n. 0 \<le> n) nodes \<and>
      list_all (\<lambda>l. node1 l \<in> set nodes \<and> node2 l \<in> set nodes
                   \<and> 0 \<le> pathCost l \<and> pathCost l \<le> cost_limit) links)"

definition no_self_links :: "Link list \<Rightarrow> bool" where
  "no_self_links links = list_all (\<lambda>l. node1 l \<noteq> node2 l) links"

text \<open>
  One router per node id, in order, and for every node id a cost between 0 and
  \<open>cost_limit\<close>.
\<close>

definition costs_ok :: "int list \<Rightarrow> Router list \<Rightarrow> bool" where
  "costs_ok nodes rs =
     (map ID rs = nodes \<and>
      list_all (\<lambda>r. list_all (\<lambda>d. 0 \<le> getPathCost r d \<and> getPathCost r d \<le> cost_limit) nodes) rs)"

text \<open>Every router's entry for its own id is (self, 0).\<close>

definition self_ok :: "Router list \<Rightarrow> bool" where
  "self_ok rs = list_all (\<lambda>r. getNextHop r (getID r) = getID r \<and> getPathCost r (getID r) = 0) rs"

text \<open>The sum of all costs in all tables; it is what a pass of the algorithm decreases.\<close>

definition row_cost :: "int list \<Rightarrow> Router \<Rightarrow> int" where
  "row_cost nodes r = sum_list (map (getPathCost r) nodes)"

definition total_cost :: "int list \<Rightarrow> Router list \<Rightarrow> int" where
  "total_cost nodes rs = sum_list (map (row_cost nodes) rs)"

text \<open>
  What a stretch of a pass does to the tables and to \<^verbatim>\<open>updated\<close>: nothing at all, or
  \<^verbatim>\<open>updated\<close> is set and the sum of the costs has gone down.
\<close>

definition progress :: "int list \<Rightarrow> Router list \<times> bool \<Rightarrow> Router list \<times> bool \<Rightarrow> bool" where
  "progress nodes s0 s =
     (s = s0 \<or> (snd s \<and> total_cost nodes (fst s) < total_cost nodes (fst s0)))"

text \<open>One router per node id, in order, and no table has a key outside the node ids.\<close>

definition tables_within :: "int list \<Rightarrow> Router list \<Rightarrow> bool" where
  "tables_within nodes rs =
     (map ID rs = nodes \<and> list_all (\<lambda>r. list_all (\<lambda>e. fst e \<in> set nodes) (RT r)) rs)"

section \<open>Routing tables\<close>

lemma map_of_table_put: "map_of (table_put k v t) = (map_of t)(k \<mapsto> v)"
  by (induction t) (auto simp: fun_eq_iff)

lemma getPathCost_addRoute:
  "getPathCost (addRoute d h c r) d' = (if d' = d then c else getPathCost r d')"
  by (simp add: getPathCost_def addRoute_def rt_getPathCost_def rt_addRoute_def map_of_table_put)

lemma getNextHop_addRoute:
  "getNextHop (addRoute d h c r) d' = (if d' = d then h else getNextHop r d')"
  by (simp add: getNextHop_def addRoute_def rt_getNextHop_def rt_addRoute_def map_of_table_put)

lemma ID_addRoute: "ID (addRoute d h c r) = ID r"
  by (simp add: addRoute_def)

lemma rt_getNextHop_contains:
  "rt_getNextHop t d = (if rt_contains t d then fst (the (map_of t d)) else -1)"
  by (auto simp: rt_getNextHop_def rt_contains_def split: option.splits)

lemma rt_getPathCost_contains:
  "rt_getPathCost t d = (if rt_contains t d then snd (the (map_of t d)) else -1)"
  by (auto simp: rt_getPathCost_def rt_contains_def split: option.splits)

lemma map_of_RoutingTable_aux:
  "map_of (fold (\<lambda>i t. if i = myID then table_put i (i, 0) t else table_put i (-1, 9999) t) ns t0) d
     = (if d \<in> set ns then Some (if d = myID then (d, 0) else (-1, 9999)) else map_of t0 d)"
  by (induction ns arbitrary: t0) (auto simp: map_of_table_put)

lemma map_of_RoutingTable:
  "map_of (RoutingTable myID ns) d
     = (if d \<in> set ns then Some (if d = myID then (d, 0) else (-1, 9999)) else None)"
  by (simp add: RoutingTable_def map_of_RoutingTable_aux)

lemma emplace_routers_eq: "emplace_routers ns rs = rs @ map (\<lambda>i. mkRouter i ns) ns"
proof -
  have "fold (\<lambda>i rs. rs @ [mkRouter i ns]) xs rs = rs @ map (\<lambda>i. mkRouter i ns) xs" for xs
    by (induction xs arbitrary: rs) simp_all
  then show ?thesis by (simp add: emplace_routers_def)
qed

lemma for_each_append:
  "for_each f (xs @ ys) s = (case for_each f xs s of Inl e \<Rightarrow> Inl e | Inr s' \<Rightarrow> for_each f ys s')"
  by (induction xs arbitrary: s) (auto split: sum.splits)

lemma for_each_inv:
  assumes "\<And>x s. x \<in> set xs \<Longrightarrow> Inv s \<Longrightarrow> \<exists>s'. f x s = Inr s' \<and> Inv s'"
    and "Inv s"
  shows "\<exists>s'. for_each f xs s = Inr s' \<and> Inv s'"
  using assms
proof (induction xs arbitrary: s)
  case Nil
  then show ?case by simp
next
  case (Cons x xs)
  from Cons.prems(1)[of x s] Cons.prems(2) obtain s1 where s1: "f x s = Inr s1" "Inv s1"
    by auto
  from Cons.IH[OF _ s1(2)] Cons.prems(1) obtain s' where "for_each f xs s1 = Inr s'" "Inv s'"
    by auto
  with s1 show ?case by simp
qed

section \<open>Lookup of routers\<close>

lemma getRouterByID_Inr:
  "getRouterByID rs i = Inr k \<Longrightarrow> k < length rs \<and> ID (rs ! k) = i \<and> (\<forall>j<k. ID (rs ! j) \<noteq> i)"
proof (induction rs arbitrary: k)
  case Nil
  then show ?case by simp
next
  case (Cons r rs)
  show ?case
  proof (cases "ID r = i")
    case True
    with Cons.prems show ?thesis by (simp add: getID_def)
  next
    case False
    with Cons.prems obtain k' where k': "getRouterByID rs i = Inr k'" "k = Suc k'"
      by (auto simp: getID_def split: sum.splits)
    from Cons.IH[OF k'(1)] False k'(2) show ?thesis
      by (auto simp: less_Suc_eq_0_disj)
  qed
qed

lemma getRouterByID_Inl:
  "getRouterByID rs i = Inl RouterNotFound \<longleftrightarrow> (\<forall>r\<in>set rs. ID r \<noteq> i)"
  by (induction rs) (auto simp: getID_def split: sum.splits)

lemma getRouterByID_found:
  "i \<in> ID ` set rs \<Longrightarrow> \<exists>k. getRouterByID rs i = Inr k"
  by (induction rs) (auto simp: getID_def split: sum.splits)

text \<open>
  C9. \<^verbatim>\<open>getRouterByID\<close> returns a reference to a router of the collection whose id is
  the requested one (the first such router) when there is one, and throws the runtime
  error, returning no router at all, when no router of the collection has that id.
\<close>

theorem getRouterByID_spec:
  "((\<exists>r\<in>set rs. getID r = i) \<longrightarrow>
      (\<exists>k. getRouterByID rs i = Inr k \<and> k < length rs \<and> getID (rs ! k) = i
           \<and> (\<forall>j<k. getID (rs ! j) \<noteq> i)))
   \<and> (\<not> (\<exists>r\<in>set rs. getID r = i) \<longrightarrow> getRouterByID rs i = Inl RouterNotFound)"
proof (intro conjI impI)
  assume "\<exists>r\<in>set rs. getID r = i"
  then have "i \<in> ID ` set rs" by (auto simp: getID_def)
  then obtain k where k: "getRouterByID rs i = Inr k" using getRouterByID_found by blast
  with getRouterByID_Inr[OF k] show "\<exists>k. getRouterByID rs i = Inr k \<and> k < length rs
      \<and> getID (rs ! k) = i \<and> (\<forall>j<k. getID (rs ! j) \<noteq> i)"
    by (auto simp: getID_def)
next
  assume "\<not> (\<exists>r\<in>set rs. getID r = i)"
  then have "\<forall>r\<in>set rs. ID r \<noteq> i" by (auto simp: getID_def)
  then have "getRouterByID rs i = Inl RouterNotFound"
    using getRouterByID_Inl[of rs i] by simp
  then show "getRouterByID rs i = Inl RouterNotFound" .
qed

theorem getRouterByID_spec_witness:
  "getRouterByID [mkRouter 1 [1, 2], mkRouter 2 [1, 2]] 2 = Inr 1
   \<and> getID ([mkRouter 1 [1, 2], mkRouter 2 [1, 2]] ! 1) = 2
   \<and> getRouterByID [mkRouter 1 [1, 2], mkRouter 2 [1, 2]] 3 = Inl RouterNotFound"
  using getRouterByID_spec [of "[mkRouter 1 [1, 2], mkRouter 2 [1, 2]]" 2]
        getRouterByID_spec [of "[mkRouter 1 [1, 2], mkRouter 2 [1, 2]]" 3]
  by (simp add: mkRouter_def getID_def)

section \<open>Seeding the routers\<close>

lemma map_ID_update: "map ID (rs[i := addRoute d h c (rs ! i)]) = map ID rs"
  by (cases "i < length rs") (simp_all add: map_update ID_addRoute list_update_same_conv list_update_beyond)

lemma getRouterByID_cong: "map ID rs = map ID rs' \<Longrightarrow> getRouterByID rs i = getRouterByID rs' i"
proof (induction rs arbitrary: rs')
  case Nil
  then show ?case by simp
next
  case (Cons r rs)
  then obtain r' rs'' where "rs' = r' # rs''" by (cases rs') auto
  with Cons show ?case by (auto simp: getID_def)
qed

lemma getRouterByID_update:
  "getRouterByID (rs[k := addRoute d h c (rs ! k)]) i = getRouterByID rs i"
  by (rule getRouterByID_cong) (rule map_ID_update)

lemma set_nodes_insert: "set (nodes_insert x ns) = insert x (set ns)"
  by (simp add: nodes_insert_def set_insort_key insert_absorb)

lemma addDirect_ok:
  assumes "node1 l \<in> ID ` set rs" "node2 l \<in> ID ` set rs"
  shows "\<exists>rs'. addDirect l rs = Inr rs' \<and> map ID rs' = map ID rs"
proof -
  from assms(1) obtain i where i: "getRouterByID rs (node1 l) = Inr i"
    using getRouterByID_found by blast
  from assms(2) obtain j where j: "getRouterByID rs (node2 l) = Inr j"
    using getRouterByID_found by blast
  show ?thesis
    using i j by (simp add: addDirect_def Let_def getRouterByID_update map_ID_update)
qed

lemma addDirect_IDs: "addDirect l rs = Inr rs' \<Longrightarrow> map ID rs' = map ID rs"
  by (auto simp: addDirect_def Let_def map_ID_update split: sum.splits)

lemma for_each_addDirect_IDs: "for_each addDirect ls rs = Inr rs' \<Longrightarrow> map ID rs' = map ID rs"
proof (induction ls arbitrary: rs)
  case Nil
  then show ?case by simp
next
  case (Cons l ls)
  then show ?case by (auto split: sum.splits dest: addDirect_IDs)
qed

lemma for_each_addDirect_ok:
  assumes "list_all (\<lambda>l. node1 l \<in> ID ` set rs \<and> node2 l \<in> ID ` set rs) ls"
  shows "\<exists>rs'. for_each addDirect ls rs = Inr rs' \<and> map ID rs' = map ID rs"
proof (rule for_each_inv [where Inv = "\<lambda>s. map ID s = map ID rs"])
  fix x :: Link and s :: "Router list"
  assume x: "x \<in> set ls" and s: "map ID s = map ID rs"
  from s have "ID ` set s = ID ` set rs" by (metis set_map)
  with x assms have "node1 x \<in> ID ` set s" "node2 x \<in> ID ` set s"
    by (auto simp: list_all_iff)
  from addDirect_ok[OF this] s show "\<exists>s'. addDirect x s = Inr s' \<and> map ID s' = map ID rs"
    by auto
qed simp

lemma map_ID_emplace: "map ID (emplace_routers ns []) = ns"
  by (simp add: emplace_routers_eq mkRouter_def comp_def)

lemma seedRouters_ok:
  assumes "links_within ns ls"
  shows "\<exists>rs. seedRouters ns ls = Inr rs \<and> map ID rs = ns"
proof -
  have "ID ` set (emplace_routers ns []) = set ns"
    by (metis map_ID_emplace set_map)
  with assms have "list_all (\<lambda>l. node1 l \<in> ID ` set (emplace_routers ns [])
                               \<and> node2 l \<in> ID ` set (emplace_routers ns [])) ls"
    by (simp add: links_within_def)
  from for_each_addDirect_ok[OF this] show ?thesis
    by (simp add: seedRouters_def map_ID_emplace)
qed

lemma initTopology_seed:
  "initTopology parsed [] [] [] =
     (case readTopology parsed ([], []) of
        (links, nodes) \<Rightarrow>
          (case seedRouters nodes links of Inl e \<Rightarrow> Inl e | Inr rs \<Rightarrow> Inr (rs, nodes, links)))"
  by (simp add: initTopology_def seedRouters_def split: prod.splits)

lemma applyChange_seed:
  "applyChange change routers nodes links =
     (case seedRouters (nodes_insert (node2 change) (nodes_insert (node1 change) nodes))
             (if pathCost change = -999 then removeLink links change
              else links @ [mkLink (node1 change) (node2 change) (pathCost change)]) of
        Inl e \<Rightarrow> Inl e
      | Inr rs \<Rightarrow> Inr (rs, nodes_insert (node2 change) (nodes_insert (node1 change) nodes),
                       (if pathCost change = -999 then removeLink links change
                        else links @ [mkLink (node1 change) (node2 change) (pathCost change)])))"
  by (cases "pathCost change = -999")
     (simp_all add: applyChange_def seedRouters_def mkLink_def Let_def split: sum.splits)

lemma addDirect_routes:
  assumes "addDirect l rs = Inr rs'"
  shows "\<exists>i j. getRouterByID rs' (node1 l) = Inr i \<and> getRouterByID rs' (node2 l) = Inr j
           \<and> getNextHop (rs' ! i) (node2 l) = node2 l \<and> getPathCost (rs' ! i) (node2 l) = pathCost l
           \<and> getNextHop (rs' ! j) (node1 l) = node1 l \<and> getPathCost (rs' ! j) (node1 l) = pathCost l"
proof -
  from assms obtain i where i: "getRouterByID rs (node1 l) = Inr i"
    by (auto simp: addDirect_def split: sum.splits)
  define rs1 where "rs1 = rs[i := addRoute (node2 l) (node2 l) (pathCost l) (rs ! i)]"
  from assms i obtain j where j: "getRouterByID rs1 (node2 l) = Inr j"
    and rs': "rs' = rs1[j := addRoute (node1 l) (node1 l) (pathCost l) (rs1 ! j)]"
    by (auto simp: addDirect_def Let_def rs1_def split: sum.splits)
  have len: "length rs1 = length rs" by (simp add: rs1_def)
  from getRouterByID_Inr[OF i] have il: "i < length rs" and iid: "ID (rs ! i) = node1 l" by auto
  from getRouterByID_Inr[OF j] len have jl: "j < length rs" and jid: "ID (rs1 ! j) = node2 l"
    by auto
  have gi: "getRouterByID rs' (node1 l) = Inr i"
    using i by (simp add: rs' rs1_def getRouterByID_update)
  have gj: "getRouterByID rs' (node2 l) = Inr j"
    using j by (simp add: rs' getRouterByID_update)
  have pj: "getNextHop (rs' ! j) (node1 l) = node1 l \<and> getPathCost (rs' ! j) (node1 l) = pathCost l"
    using jl len by (simp add: rs' getNextHop_addRoute getPathCost_addRoute)
  have pi: "getNextHop (rs' ! i) (node2 l) = node2 l \<and> getPathCost (rs' ! i) (node2 l) = pathCost l"
  proof (cases "i = j")
    case True
    with iid jid il have "node1 l = node2 l" by (simp add: rs1_def ID_addRoute)
    with pj True show ?thesis by simp
  next
    case False
    with il len have "rs' ! i = addRoute (node2 l) (node2 l) (pathCost l) (rs ! i)"
      by (simp add: rs' rs1_def)
    then show ?thesis by (simp add: getNextHop_addRoute getPathCost_addRoute)
  qed
  from gi gj pi pj show ?thesis by blast
qed

section \<open>Applying a change to the topology\<close>

text \<open>
  C2, as the code has it. On a topology whose links join known nodes, \<^verbatim>\<open>applyChange\<close>
  adds both endpoints of the change to the node-id set. With the removal cost \<open>-999\<close> it
  deletes every link record between the two endpoints, in either orientation, and keeps
  the others. With any other cost it appends one record with that cost after the records
  already there, which stay in the list, and the direct routes seeded on the two endpoints
  carry the new cost.
\<close>

theorem applyChange_topology:
  assumes "links_within nodes links"
  shows "\<exists>routers' nodes' links'.
           applyChange change routers nodes links = Inr (routers', nodes', links')
         \<and> set nodes' = set nodes \<union> {node1 change, node2 change}
         \<and> (pathCost change = -999 \<longrightarrow>
               links' = filter (\<lambda>l. \<not> link_matches change l) links
             \<and> links_between change links' = [])
         \<and> (pathCost change \<noteq> -999 \<longrightarrow>
               links' = links @ [mkLink (node1 change) (node2 change) (pathCost change)]
             \<and> (\<exists>i j. getRouterByID routers' (node1 change) = Inr i
                     \<and> getRouterByID routers' (node2 change) = Inr j
                     \<and> getNextHop (routers' ! i) (node2 change) = node2 change
                     \<and> getPathCost (routers' ! i) (node2 change) = pathCost change
                     \<and> getNextHop (routers' ! j) (node1 change) = node1 change
                     \<and> getPathCost (routers' ! j) (node1 change) = pathCost change))"
proof -
  define nodes' where "nodes' = nodes_insert (node2 change) (nodes_insert (node1 change) nodes)"
  define links' where "links' = (if pathCost change = -999 then removeLink links change
                    else links @ [mkLink (node1 change) (node2 change) (pathCost change)])"
  have sn: "set nodes' = set nodes \<union> {node1 change, node2 change}"
    by (auto simp: nodes'_def set_nodes_insert)
  have "links_within nodes' links'"
    using assms sn
    by (auto simp: links_within_def list_all_iff links'_def removeLink_def mkLink_def)
  from seedRouters_ok[OF this] obtain rs where rs: "seedRouters nodes' links' = Inr rs" by blast
  have ac: "applyChange change routers nodes links = Inr (rs, nodes', links')"
    using rs by (simp add: applyChange_seed nodes'_def links'_def)
  have rem: "pathCost change = -999 \<longrightarrow>
               links' = filter (\<lambda>l. \<not> link_matches change l) links
             \<and> links_between change links' = []"
    by (auto simp: links'_def removeLink_def links_between_def filter_empty_conv)
  have add: "\<exists>i j. getRouterByID rs (node1 change) = Inr i
                     \<and> getRouterByID rs (node2 change) = Inr j
                     \<and> getNextHop (rs ! i) (node2 change) = node2 change
                     \<and> getPathCost (rs ! i) (node2 change) = pathCost change
                     \<and> getNextHop (rs ! j) (node1 change) = node1 change
                     \<and> getPathCost (rs ! j) (node1 change) = pathCost change"
    if ne: "pathCost change \<noteq> -999"
  proof -
    let ?c = "mkLink (node1 change) (node2 change) (pathCost change)"
    from rs ne obtain rs0 where "for_each addDirect links (emplace_routers nodes' []) = Inr rs0"
      and "addDirect ?c rs0 = Inr rs"
      by (auto simp: seedRouters_def links'_def for_each_append split: sum.splits)
    from addDirect_routes[OF this(2)] show ?thesis by (simp add: mkLink_def)
  qed
  from ac sn rem add show ?thesis by (auto simp: links'_def)
qed

theorem applyChange_topology_witness:
  "\<exists>routers'. applyChange (mkLink 1 2 3) [] [1, 2] [mkLink 1 2 5]
       = Inr (routers', [1, 2], [mkLink 1 2 5, mkLink 1 2 3])
     \<and> getRouterByID routers' 1 = Inr 0 \<and> getPathCost (routers' ! 0) 2 = 3"
proof -
  have w: "links_within [1, 2] [mkLink 1 2 5]"
    by (simp add: links_within_def mkLink_def)
  have e: "applyChange (mkLink 1 2 3) [] [1, 2] [mkLink 1 2 5]
       = Inr ([\<lparr>ID = 1, RT = [(1, 1, 0), (2, 2, 3)]\<rparr>, \<lparr>ID = 2, RT = [(1, 1, 3), (2, 2, 0)]\<rparr>],
              [1, 2], [mkLink 1 2 5, mkLink 1 2 3])"
    by code_simp
  from applyChange_topology[OF w, of "mkLink 1 2 3" "[]"] e show ?thesis
    by (simp add: getID_def getPathCost_def rt_getPathCost_def)
qed

text \<open>
  The claim as written fails where a link between the endpoints already exists: after the
  change \<open>1 2 3\<close> on the single link \<open>1 2 5\<close> the list holds two records for the pair,
  and the first still has cost 5.
\<close>

theorem applyChange_duplicate_counterexample:
  "applyChange (mkLink 1 2 3) [] [1, 2] [mkLink 1 2 5]
     = Inr ([\<lparr>ID = 1, RT = [(1, 1, 0), (2, 2, 3)]\<rparr>, \<lparr>ID = 2, RT = [(1, 1, 3), (2, 2, 0)]\<rparr>],
            [1, 2], [mkLink 1 2 5, mkLink 1 2 3])
   \<and> length (links_between (mkLink 1 2 3) [mkLink 1 2 5, mkLink 1 2 3]) = 2
   \<and> pathCost (hd [mkLink 1 2 5, mkLink 1 2 3]) = 5"
  by code_simp

text \<open>
  C3. The routers \<^verbatim>\<open>applyChange\<close> leaves behind do not depend on the routers it was
  given: the vector is cleared, and the result is the seeding of the node-id set and link
  list after the mutation.
\<close>

theorem applyChange_forgets_routers:
  "applyChange change routers1 nodes links = applyChange change routers2 nodes links
   \<and> applyChange change routers1 nodes links =
       (case seedRouters (nodes_insert (node2 change) (nodes_insert (node1 change) nodes))
               (if pathCost change = -999 then removeLink links change
                else links @ [mkLink (node1 change) (node2 change) (pathCost change)]) of
          Inl e \<Rightarrow> Inl e
        | Inr rs \<Rightarrow> Inr (rs, nodes_insert (node2 change) (nodes_insert (node1 change) nodes),
                         (if pathCost change = -999 then removeLink links change
                          else links @ [mkLink (node1 change) (node2 change) (pathCost change)])))"
  by (cases "pathCost change = -999")
     (simp_all add: applyChange_def seedRouters_def mkLink_def Let_def split: sum.splits)

section \<open>Invariants of the routing tables\<close>

lemma costs_okD:
  "costs_ok nodes rs \<Longrightarrow> k < length rs \<Longrightarrow> d \<in> set nodes
     \<Longrightarrow> 0 \<le> getPathCost (rs ! k) d \<and> getPathCost (rs ! k) d \<le> cost_limit"
  by (auto simp: costs_ok_def list_all_iff)

lemma costs_ok_length: "costs_ok nodes rs \<Longrightarrow> length rs = length nodes"
  by (auto simp: costs_ok_def)

lemma costs_ok_IDs: "costs_ok nodes rs \<Longrightarrow> ID ` set rs = set nodes"
  by (metis costs_ok_def set_map)

lemma costs_ok_update:
  assumes "costs_ok nodes rs" "0 \<le> c \<and> c \<le> cost_limit"
  shows "costs_ok nodes (rs[k := addRoute d h c (rs ! k)])"
proof (cases "k < length rs")
  case True
  have "list_all (\<lambda>d'. 0 \<le> getPathCost r d' \<and> getPathCost r d' \<le> cost_limit) nodes"
    if "r \<in> set (rs[k := addRoute d h c (rs ! k)])" for r
  proof -
    from that set_update_subset_insert[of rs k]
    have "r = addRoute d h c (rs ! k) \<or> r \<in> set rs" by auto
    then show ?thesis
    proof
      assume "r = addRoute d h c (rs ! k)"
      with assms True show ?thesis
        by (auto simp: list_all_iff getPathCost_addRoute costs_ok_def)
    next
      assume "r \<in> set rs"
      with assms show ?thesis by (auto simp: list_all_iff costs_ok_def)
    qed
  qed
  with assms(1) show ?thesis
    by (simp add: costs_ok_def map_ID_update list_all_iff)
next
  case False
  with assms(1) show ?thesis by (simp add: list_update_beyond)
qed

lemma self_okD:
  "self_ok rs \<Longrightarrow> k < length rs \<Longrightarrow>
     getNextHop (rs ! k) (ID (rs ! k)) = ID (rs ! k) \<and> getPathCost (rs ! k) (ID (rs ! k)) = 0"
  by (auto simp: self_ok_def list_all_iff getID_def)

lemma self_ok_update:
  assumes "self_ok rs" "d \<noteq> ID (rs ! k)"
  shows "self_ok (rs[k := addRoute d h c (rs ! k)])"
proof (cases "k < length rs")
  case True
  have "getNextHop r (ID r) = ID r \<and> getPathCost r (ID r) = 0"
    if "r \<in> set (rs[k := addRoute d h c (rs ! k)])" for r
  proof -
    from that set_update_subset_insert[of rs k]
    have "r = addRoute d h c (rs ! k) \<or> r \<in> set rs" by auto
    then show ?thesis
    proof
      assume "r = addRoute d h c (rs ! k)"
      with assms True show ?thesis
        by (auto simp: getNextHop_addRoute getPathCost_addRoute ID_addRoute dest: self_okD)
    next
      assume "r \<in> set rs"
      with assms(1) show ?thesis by (auto simp: self_ok_def list_all_iff getID_def)
    qed
  qed
  then show ?thesis by (simp add: self_ok_def list_all_iff getID_def)
next
  case False
  with assms(1) show ?thesis by (simp add: list_update_beyond)
qed

lemma costs_ok_emplace:
  "costs_ok nodes (emplace_routers nodes [])"
  by (auto simp: costs_ok_def emplace_routers_eq mkRouter_def comp_def list_all_iff
        getPathCost_def rt_getPathCost_def map_of_RoutingTable cost_limit_def)

lemma self_ok_emplace:
  "self_ok (emplace_routers nodes [])"
  by (auto simp: self_ok_def emplace_routers_eq mkRouter_def list_all_iff getID_def
        getPathCost_def rt_getPathCost_def getNextHop_def rt_getNextHop_def map_of_RoutingTable)

lemma addDirect_inv:
  assumes c: "costs_ok nodes s" and b: "b \<longrightarrow> self_ok s"
    and l: "node1 l \<in> set nodes" "node2 l \<in> set nodes" "0 \<le> pathCost l \<and> pathCost l \<le> cost_limit"
    and ns: "b \<longrightarrow> node1 l \<noteq> node2 l"
  shows "\<exists>s'. addDirect l s = Inr s' \<and> costs_ok nodes s' \<and> (b \<longrightarrow> self_ok s')"
proof -
  from c l have "node1 l \<in> ID ` set s" "node2 l \<in> ID ` set s"
    by (simp_all add: costs_ok_IDs)
  then obtain i j where i: "getRouterByID s (node1 l) = Inr i"
    and j: "getRouterByID s (node2 l) = Inr j"
    using getRouterByID_found by blast
  define s1 where "s1 = s[i := addRoute (node2 l) (node2 l) (pathCost l) (s ! i)]"
  define s2 where "s2 = s1[j := addRoute (node1 l) (node1 l) (pathCost l) (s1 ! j)]"
  have j1: "getRouterByID s1 (node2 l) = Inr j"
    using j by (simp add: s1_def getRouterByID_update)
  have res: "addDirect l s = Inr s2"
    using i j1 by (simp add: addDirect_def Let_def s1_def s2_def)
  have c1: "costs_ok nodes s1" unfolding s1_def by (rule costs_ok_update[OF c l(3)])
  have c2: "costs_ok nodes s2" unfolding s2_def by (rule costs_ok_update[OF c1 l(3)])
  have "self_ok s2" if bb: b
  proof -
    from getRouterByID_Inr[OF i] have "ID (s ! i) = node1 l" by simp
    with bb ns b have "self_ok s1" unfolding s1_def by (intro self_ok_update) auto
    moreover from getRouterByID_Inr[OF j1] have "ID (s1 ! j) = node2 l" by simp
    ultimately show ?thesis using bb ns unfolding s2_def by (intro self_ok_update) auto
  qed
  with res c2 show ?thesis by blast
qed

lemma seedRouters_inv:
  assumes wf: "wf_topology nodes links" and ns: "b \<longrightarrow> no_self_links links"
  shows "\<exists>rs. seedRouters nodes links = Inr rs \<and> costs_ok nodes rs \<and> (b \<longrightarrow> self_ok rs)"
  unfolding seedRouters_def
proof (rule for_each_inv [where Inv = "\<lambda>s. costs_ok nodes s \<and> (b \<longrightarrow> self_ok s)"])
  fix x :: Link and s :: "Router list"
  assume x: "x \<in> set links" and s: "costs_ok nodes s \<and> (b \<longrightarrow> self_ok s)"
  from x wf have "node1 x \<in> set nodes" "node2 x \<in> set nodes"
    "0 \<le> pathCost x \<and> pathCost x \<le> cost_limit"
    by (auto simp: wf_topology_def list_all_iff)
  moreover from x ns have "b \<longrightarrow> node1 x \<noteq> node2 x"
    by (auto simp: no_self_links_def list_all_iff)
  ultimately show "\<exists>s'. addDirect x s = Inr s' \<and> costs_ok nodes s' \<and> (b \<longrightarrow> self_ok s')"
    using s by (intro addDirect_inv) auto
next
  show "costs_ok nodes (emplace_routers nodes []) \<and> (b \<longrightarrow> self_ok (emplace_routers nodes []))"
    by (simp add: costs_ok_emplace self_ok_emplace)
qed

section \<open>One pass never raises the sum of the costs\<close>

lemma sum_list_map_less:
  fixes f g :: "'a \<Rightarrow> int"
  assumes "\<forall>x\<in>set xs. f x \<le> g x" "\<exists>x\<in>set xs. f x < g x"
  shows "sum_list (map f xs) < sum_list (map g xs)"
  using assms
proof (induction xs)
  case Nil
  then show ?case by simp
next
  case (Cons a xs)
  show ?case
  proof (cases "f a < g a")
    case True
    moreover have "sum_list (map f xs) \<le> sum_list (map g xs)"
      using Cons.prems(1) by (intro sum_list_mono) simp
    ultimately show ?thesis by simp
  next
    case False
    with Cons.prems have "\<exists>x\<in>set xs. f x < g x" "\<forall>x\<in>set xs. f x \<le> g x" "f a \<le> g a"
      by auto
    with Cons.IH show ?thesis by simp
  qed
qed

lemma sum_list_map_update:
  fixes f :: "'a \<Rightarrow> int"
  shows "k < length xs \<Longrightarrow> sum_list (map f (xs[k := y])) = sum_list (map f xs) + f y - f (xs ! k)"
proof (induction xs arbitrary: k)
  case Nil
  then show ?case by simp
next
  case (Cons a xs)
  then show ?case by (cases k) simp_all
qed

lemma row_cost_addRoute_less:
  assumes "d \<in> set nodes" "c < getPathCost r d"
  shows "row_cost nodes (addRoute d h c r) < row_cost nodes r"
  unfolding row_cost_def
  using assms by (intro sum_list_map_less) (auto simp: getPathCost_addRoute)

lemma row_cost_addRoute_le:
  assumes "c \<le> getPathCost r d"
  shows "row_cost nodes (addRoute d h c r) \<le> row_cost nodes r"
  unfolding row_cost_def
  using assms by (intro sum_list_mono) (auto simp: getPathCost_addRoute)

lemma total_cost_update_less:
  assumes "k < length rs" "d \<in> set nodes" "c < getPathCost (rs ! k) d"
  shows "total_cost nodes (rs[k := addRoute d h c (rs ! k)]) < total_cost nodes rs"
  using row_cost_addRoute_less[OF assms(2,3), of h] assms(1)
  by (simp add: total_cost_def sum_list_map_update)

lemma total_cost_update_le:
  assumes "k < length rs" "c \<le> getPathCost (rs ! k) d"
  shows "total_cost nodes (rs[k := addRoute d h c (rs ! k)]) \<le> total_cost nodes rs"
  using row_cost_addRoute_le[OF assms(2), of nodes h] assms(1)
  by (simp add: total_cost_def sum_list_map_update)

lemma costs_ok_mem:
  "costs_ok nodes rs \<Longrightarrow> r \<in> set rs \<Longrightarrow> d \<in> set nodes \<Longrightarrow> 0 \<le> getPathCost r d"
  unfolding costs_ok_def list_all_iff by blast

lemma int_range_sum:
  "0 \<le> a \<Longrightarrow> a \<le> cost_limit \<Longrightarrow> 0 \<le> b \<Longrightarrow> b \<le> cost_limit \<Longrightarrow> int_range (a + b)"
  by (simp add: int_range_def cost_limit_def)

lemma total_cost_nonneg:
  assumes "costs_ok nodes rs"
  shows "0 \<le> total_cost nodes rs"
proof -
  have "0 \<le> row_cost nodes r" if "r \<in> set rs" for r
    unfolding row_cost_def using costs_ok_mem[OF assms that]
    by (intro sum_list_nonneg) auto
  then show ?thesis
    unfolding total_cost_def by (intro sum_list_nonneg) auto
qed

lemma neighbourOf_cases: "neighbourOf rid l = -1 \<or> neighbourOf rid l = node1 l \<or> neighbourOf rid l = node2 l"
  by (simp add: neighbourOf_def)

lemma relaxLink_inv:
  assumes wf: "wf_topology nodes links" and l: "l \<in> set links"
    and i: "i < length rs" and d: "dest \<in> set nodes"
    and c: "costs_ok nodes rs" and b: "b \<longrightarrow> self_ok rs"
    and cur: "cur = getPathCost (rs ! i) dest"
    and pr: "(rs = rs0 \<and> upd = upd0 \<and> nnh = -1)
             \<or> (upd \<and> total_cost nodes rs < total_cost nodes rs0 \<and> (b \<longrightarrow> dest \<noteq> nodes ! i))"
  shows "\<exists>rs' cur' nnh' upd'.
           relaxLink i dest l (rs, cur, nnh, upd) = Inr (rs', cur', nnh', upd')
         \<and> costs_ok nodes rs' \<and> (b \<longrightarrow> self_ok rs')
         \<and> cur' = getPathCost (rs' ! i) dest
         \<and> ((rs' = rs0 \<and> upd' = upd0 \<and> nnh' = -1)
             \<or> (upd' \<and> total_cost nodes rs' < total_cost nodes rs0 \<and> (b \<longrightarrow> dest \<noteq> nodes ! i)))"
proof -
  let ?nb = "neighbourOf (getID (rs ! i)) l"
  have same: ?thesis if "relaxLink i dest l (rs, cur, nnh, upd) = Inr (rs, cur, nnh, upd)"
    using that c b cur pr by auto
  have idi: "ID (rs ! i) = nodes ! i"
    using c i by (metis costs_ok_def nth_map)
  show ?thesis
  proof (cases "?nb = -1 \<or> ?nb = dest")
    case True
    then show ?thesis by (intro same) (auto simp: Let_def)
  next
    case False
    then have nb1: "?nb \<noteq> -1" and nbd: "?nb \<noteq> dest" by auto
    from nb1 neighbourOf_cases[of "getID (rs ! i)" l] l wf
    have nbn: "?nb \<in> set nodes" by (auto simp: wf_topology_def list_all_iff)
    with wf nb1 have nb0: "0 \<le> ?nb" by (auto simp: wf_topology_def list_all_iff)
    from nbn c obtain j where j: "getRouterByID rs ?nb = Inr j"
      using getRouterByID_found[of ?nb rs] by (auto simp: costs_ok_IDs)
    from getRouterByID_Inr[OF j] have jl: "j < length rs" by simp
    show ?thesis
    proof (cases "getNextHop (rs ! j) dest = getID (rs ! i)")
      case True
      with False j show ?thesis by (intro same) (simp add: Let_def)
    next
      case nsh: False
      let ?cand = "getPathCost (rs ! i) ?nb + getPathCost (rs ! j) dest"
      have c0: "0 \<le> ?cand"
        using costs_okD[OF c i nbn] costs_okD[OF c jl d] by simp
      have ir: "int_range ?cand"
        using costs_okD[OF c i nbn] costs_okD[OF c jl d] by (intro int_range_sum) auto
      show ?thesis
      proof (cases "?cand < cur \<or> (?cand = cur \<and> ?nb < nnh)")
        case adopt: True
        let ?rs' = "rs[i := addRoute dest ?nb ?cand (rs ! i)]"
        have res: "relaxLink i dest l (rs, cur, nnh, upd) = Inr (?rs', ?cand, ?nb, True)"
          using False j nsh adopt ir by (simp add: Let_def)
        have le: "?cand \<le> getPathCost (rs ! i) dest" using adopt cur by auto
        with costs_okD[OF c i d] have "?cand \<le> cost_limit" by simp
        with c0 have c': "costs_ok nodes ?rs'" by (intro costs_ok_update[OF c]) simp
        have cur': "?cand = getPathCost (?rs' ! i) dest"
          using i by (simp add: getPathCost_addRoute)
        have ne: "dest \<noteq> nodes ! i" if b
        proof
          assume eq: "dest = nodes ! i"
          from pr that have "rs = rs0 \<and> upd = upd0 \<and> nnh = -1" using eq by auto
          with adopt nb0 have "?cand < cur" by auto
          moreover from that b self_okD[OF _ i] idi eq cur have "cur = 0" by auto
          ultimately show False using c0 by simp
        qed
        have tc: "total_cost nodes ?rs' < total_cost nodes rs0"
          using pr
        proof
          assume first: "rs = rs0 \<and> upd = upd0 \<and> nnh = -1"
          with adopt nb0 have "?cand < getPathCost (rs ! i) dest" using cur by auto
          from total_cost_update_less[OF i d this] first show ?thesis by simp
        next
          assume "upd \<and> total_cost nodes rs < total_cost nodes rs0 \<and> (b \<longrightarrow> dest \<noteq> nodes ! i)"
          with total_cost_update_le[OF i le, of nodes ?nb] show ?thesis by simp
        qed
        have s': "self_ok ?rs'" if b
          using that b ne idi by (intro self_ok_update) auto
        from res c' cur' tc ne s' show ?thesis by blast
      next
        case False
        with \<open>\<not> (?nb = -1 \<or> ?nb = dest)\<close> j nsh ir show ?thesis
          by (intro same) (simp add: Let_def)
      qed
    qed
  qed
qed

lemma progress_refl: "progress nodes s s"
  by (simp add: progress_def)

lemma progress_trans: "progress nodes s0 s1 \<Longrightarrow> progress nodes s1 s2 \<Longrightarrow> progress nodes s0 s2"
  by (auto simp: progress_def)

lemma scanDest_inv:
  assumes wf: "wf_topology nodes links"
    and i: "i < length rs" and d: "dest \<in> set nodes"
    and c: "costs_ok nodes rs" and b: "b \<longrightarrow> self_ok rs"
  shows "\<exists>rs' upd'. scanDest links i dest (rs, upd) = Inr (rs', upd')
           \<and> costs_ok nodes rs' \<and> (b \<longrightarrow> self_ok rs') \<and> progress nodes (rs, upd) (rs', upd')"
proof -
  define Inv :: "Router list \<times> int \<times> int \<times> bool \<Rightarrow> bool" where
    "Inv = (\<lambda>(rs', cur, nnh, upd').
        costs_ok nodes rs' \<and> (b \<longrightarrow> self_ok rs') \<and> cur = getPathCost (rs' ! i) dest
        \<and> ((rs' = rs \<and> upd' = upd \<and> nnh = -1)
            \<or> (upd' \<and> total_cost nodes rs' < total_cost nodes rs \<and> (b \<longrightarrow> dest \<noteq> nodes ! i))))"
  have "\<exists>s'. for_each (relaxLink i dest) links (rs, getPathCost (rs ! i) dest, -1, upd) = Inr s' \<and> Inv s'"
  proof (rule for_each_inv [where Inv = Inv])
    fix x :: Link and s :: "Router list \<times> int \<times> int \<times> bool"
    assume x: "x \<in> set links" and s: "Inv s"
    obtain rs1 cur nnh upd1 where s1: "s = (rs1, cur, nnh, upd1)" by (cases s) auto
    from s have c1: "costs_ok nodes rs1" and b1: "b \<longrightarrow> self_ok rs1"
      and cur: "cur = getPathCost (rs1 ! i) dest"
      and pr: "(rs1 = rs \<and> upd1 = upd \<and> nnh = -1)
            \<or> (upd1 \<and> total_cost nodes rs1 < total_cost nodes rs \<and> (b \<longrightarrow> dest \<noteq> nodes ! i))"
      by (auto simp: Inv_def s1)
    from i c c1 have i1: "i < length rs1" by (simp add: costs_ok_length)
    from relaxLink_inv[OF wf x i1 d c1 b1 cur pr]
    show "\<exists>s'. relaxLink i dest x s = Inr s' \<and> Inv s'"
      unfolding s1 Inv_def by fastforce
  next
    show "Inv (rs, getPathCost (rs ! i) dest, -1, upd)"
      using c b by (simp add: Inv_def)
  qed
  then obtain rs' cur' nnh' upd' where
    fe: "for_each (relaxLink i dest) links (rs, getPathCost (rs ! i) dest, -1, upd)
           = Inr (rs', cur', nnh', upd')"
    and inv: "Inv (rs', cur', nnh', upd')"
    by (metis prod_cases4)
  from fe have "scanDest links i dest (rs, upd) = Inr (rs', upd')"
    by (simp add: scanDest_def)
  moreover from inv have "costs_ok nodes rs'" "b \<longrightarrow> self_ok rs'"
    "progress nodes (rs, upd) (rs', upd')"
    by (auto simp: Inv_def progress_def)
  ultimately show ?thesis by blast
qed

lemma scanRouter_inv:
  assumes wf: "wf_topology nodes links"
    and i: "i < length rs"
    and c: "costs_ok nodes rs" and b: "b \<longrightarrow> self_ok rs"
  shows "\<exists>rs' upd'. scanRouter nodes links i (rs, upd) = Inr (rs', upd')
           \<and> costs_ok nodes rs' \<and> (b \<longrightarrow> self_ok rs') \<and> progress nodes (rs, upd) (rs', upd')"
proof -
  define Inv :: "Router list \<times> bool \<Rightarrow> bool" where
    "Inv = (\<lambda>s. costs_ok nodes (fst s) \<and> (b \<longrightarrow> self_ok (fst s)) \<and> progress nodes (rs, upd) s)"
  have "\<exists>s'. for_each (scanDest links i) nodes (rs, upd) = Inr s' \<and> Inv s'"
  proof (rule for_each_inv [where Inv = Inv])
    fix x :: int and s :: "Router list \<times> bool"
    assume x: "x \<in> set nodes" and s: "Inv s"
    obtain rs1 upd1 where s1: "s = (rs1, upd1)" by (cases s) auto
    from s have c1: "costs_ok nodes rs1" and b1: "b \<longrightarrow> self_ok rs1"
      and pr: "progress nodes (rs, upd) (rs1, upd1)"
      by (auto simp: Inv_def s1)
    from i c c1 have i1: "i < length rs1" by (simp add: costs_ok_length)
    from scanDest_inv[OF wf i1 x c1 b1, of upd1] pr
    show "\<exists>s'. scanDest links i x s = Inr s' \<and> Inv s'"
      unfolding s1 Inv_def by (auto intro: progress_trans)
  next
    show "Inv (rs, upd)" using c b by (simp add: Inv_def progress_refl)
  qed
  then show ?thesis by (auto simp: scanRouter_def Inv_def)
qed

lemma sweep_inv:
  assumes wf: "wf_topology nodes links"
    and c: "costs_ok nodes rs" and b: "b \<longrightarrow> self_ok rs"
  shows "\<exists>rs' upd'. sweep rs nodes links = Inr (rs', upd')
           \<and> costs_ok nodes rs' \<and> (b \<longrightarrow> self_ok rs') \<and> progress nodes (rs, False) (rs', upd')"
proof -
  define Inv :: "Router list \<times> bool \<Rightarrow> bool" where
    "Inv = (\<lambda>s. costs_ok nodes (fst s) \<and> (b \<longrightarrow> self_ok (fst s)) \<and> progress nodes (rs, False) s)"
  have "\<exists>s'. for_each (scanRouter nodes links) [0..<length rs] (rs, False) = Inr s' \<and> Inv s'"
  proof (rule for_each_inv [where Inv = Inv])
    fix x :: nat and s :: "Router list \<times> bool"
    assume x: "x \<in> set [0..<length rs]" and s: "Inv s"
    obtain rs1 upd1 where s1: "s = (rs1, upd1)" by (cases s) auto
    from s have c1: "costs_ok nodes rs1" and b1: "b \<longrightarrow> self_ok rs1"
      and pr: "progress nodes (rs, False) (rs1, upd1)"
      by (auto simp: Inv_def s1)
    from x c c1 have i1: "x < length rs1" by (simp add: costs_ok_length)
    from scanRouter_inv[OF wf i1 c1 b1, of upd1] pr
    show "\<exists>s'. scanRouter nodes links x s = Inr s' \<and> Inv s'"
      unfolding s1 Inv_def by (auto intro: progress_trans)
  next
    show "Inv (rs, False)" using c b by (simp add: Inv_def progress_refl)
  qed
  then show ?thesis by (auto simp: sweep_def Inv_def)
qed

section \<open>Termination of \<^verbatim>\<open>doBellmanFordAlg\<close>\<close>

lemma doBellmanFordAlg_terminates:
  assumes wf: "wf_topology nodes links"
    and c: "costs_ok nodes rs" and b: "b \<longrightarrow> self_ok rs"
  shows "\<exists>r. doBellmanFordAlg rs nodes links = Some (Inr r)
           \<and> costs_ok nodes r \<and> (b \<longrightarrow> self_ok r) \<and> sweep r nodes links = Inr (r, False)"
  using c b
proof (induction "nat (total_cost nodes rs)" arbitrary: rs rule: less_induct)
  case less
  from sweep_inv[OF wf less.prems] obtain rs' upd' where
    sw: "sweep rs nodes links = Inr (rs', upd')" and c': "costs_ok nodes rs'"
    and b': "b \<longrightarrow> self_ok rs'" and pr: "progress nodes (rs, False) (rs', upd')"
    by blast
  show ?case
  proof (cases upd')
    case True
    with pr have "total_cost nodes rs' < total_cost nodes rs" by (auto simp: progress_def)
    with total_cost_nonneg[OF c'] have "nat (total_cost nodes rs') < nat (total_cost nodes rs)"
      by simp
    from less.hyps[OF this c' b'] obtain r where
      "doBellmanFordAlg rs' nodes links = Some (Inr r)" "costs_ok nodes r" "b \<longrightarrow> self_ok r"
      "sweep r nodes links = Inr (r, False)"
      by blast
    moreover have "doBellmanFordAlg rs nodes links = doBellmanFordAlg rs' nodes links"
      using sw True by (subst doBellmanFordAlg.simps) simp
    ultimately show ?thesis by auto
  next
    case False
    with pr have eq: "rs' = rs" by (auto simp: progress_def)
    have "doBellmanFordAlg rs nodes links = Some (Inr rs)"
      using sw False eq by (subst doBellmanFordAlg.simps) simp
    with sw False eq less.prems show ?thesis by auto
  qed
qed

text \<open>A pass that updates something and leaves the tables as they were repeats for ever.\<close>

lemma doBellmanFordAlg_diverges:
  assumes "sweep rs nodes links = Inr (rs, True)"
  shows "doBellmanFordAlg rs nodes links = None"
proof (rule ccontr)
  assume "doBellmanFordAlg rs nodes links \<noteq> None"
  then obtain y where y: "doBellmanFordAlg rs nodes links = Some y" by auto
  have "\<not> (rs = rs \<and> nodes = nodes \<and> links = links)"
  proof (rule doBellmanFordAlg.raw_induct
      [where P = "\<lambda>r n l y. \<not> (r = rs \<and> n = nodes \<and> l = links)", OF _ y])
    fix f :: "Router list \<Rightarrow> int list \<Rightarrow> Link list \<Rightarrow> (error + Router list) option"
      and routers ns ls res
    assume ih: "\<And>a b c y. f a b c = Some y \<Longrightarrow> \<not> (a = rs \<and> b = nodes \<and> c = links)"
      and step: "(case sweep routers ns ls of
                    Inl e \<Rightarrow> Some (Inl e)
                  | Inr (routers', updated) \<Rightarrow>
                      if updated then f routers' ns ls else Some (Inr routers')) = Some res"
    show "\<not> (routers = rs \<and> ns = nodes \<and> ls = links)"
    proof
      assume eq: "routers = rs \<and> ns = nodes \<and> ls = links"
      with step assms have "f rs nodes links = Some res" by simp
      from ih[OF this] show False by simp
    qed
  qed
  then show False by simp
qed

text \<open>
  C4, as the code has it. On a topology whose node ids and link costs are not negative,
  whose link costs are at most \<open>2^30 - 1\<close> (so that no sum of two costs overflows) and
  whose links join known nodes, the seeding succeeds and \<^verbatim>\<open>doBellmanFordAlg\<close>, run on
  the seeded routers with no bound on its passes, returns: it reaches tables on which a
  full pass updates nothing.
\<close>

theorem doBellmanFordAlg_converges:
  assumes "wf_topology nodes links"
  shows "\<exists>routers0 routers.
           seedRouters nodes links = Inr routers0
         \<and> doBellmanFordAlg routers0 nodes links = Some (Inr routers)
         \<and> sweep routers nodes links = Inr (routers, False)"
proof -
  from seedRouters_inv[OF assms, of False] obtain rs0 where
    "seedRouters nodes links = Inr rs0" "costs_ok nodes rs0" by auto
  with doBellmanFordAlg_terminates[OF assms this(2), of False] show ?thesis by auto
qed

theorem doBellmanFordAlg_converges_witness:
  "seedRouters [1, 2, 3] [mkLink 1 2 1, mkLink 2 3 1, mkLink 1 3 5]
     = Inr [\<lparr>ID = 1, RT = [(1, 1, 0), (2, 2, 1), (3, 3, 5)]\<rparr>,
            \<lparr>ID = 2, RT = [(1, 1, 1), (2, 2, 0), (3, 3, 1)]\<rparr>,
            \<lparr>ID = 3, RT = [(1, 1, 5), (2, 2, 1), (3, 3, 0)]\<rparr>]
   \<and> doBellmanFordAlg
        [\<lparr>ID = 1, RT = [(1, 1, 0), (2, 2, 1), (3, 3, 5)]\<rparr>,
         \<lparr>ID = 2, RT = [(1, 1, 1), (2, 2, 0), (3, 3, 1)]\<rparr>,
         \<lparr>ID = 3, RT = [(1, 1, 5), (2, 2, 1), (3, 3, 0)]\<rparr>]
        [1, 2, 3] [mkLink 1 2 1, mkLink 2 3 1, mkLink 1 3 5]
     = Some (Inr [\<lparr>ID = 1, RT = [(1, 1, 0), (2, 2, 1), (3, 2, 2)]\<rparr>,
                  \<lparr>ID = 2, RT = [(1, 1, 1), (2, 2, 0), (3, 3, 1)]\<rparr>,
                  \<lparr>ID = 3, RT = [(1, 2, 2), (2, 2, 1), (3, 3, 0)]\<rparr>])
   \<and> sweep [\<lparr>ID = 1, RT = [(1, 1, 0), (2, 2, 1), (3, 2, 2)]\<rparr>,
             \<lparr>ID = 2, RT = [(1, 1, 1), (2, 2, 0), (3, 3, 1)]\<rparr>,
             \<lparr>ID = 3, RT = [(1, 2, 2), (2, 2, 1), (3, 3, 0)]\<rparr>]
        [1, 2, 3] [mkLink 1 2 1, mkLink 2 3 1, mkLink 1 3 5]
     = Inr ([\<lparr>ID = 1, RT = [(1, 1, 0), (2, 2, 1), (3, 2, 2)]\<rparr>,
             \<lparr>ID = 2, RT = [(1, 1, 1), (2, 2, 0), (3, 3, 1)]\<rparr>,
             \<lparr>ID = 3, RT = [(1, 2, 2), (2, 2, 1), (3, 3, 0)]\<rparr>], False)"
proof -
  have wf: "wf_topology [1, 2, 3] [mkLink 1 2 1, mkLink 2 3 1, mkLink 1 3 5]"
    by (simp add: wf_topology_def mkLink_def cost_limit_def)
  have seed: "seedRouters [1, 2, 3] [mkLink 1 2 1, mkLink 2 3 1, mkLink 1 3 5]
     = Inr [\<lparr>ID = 1, RT = [(1, 1, 0), (2, 2, 1), (3, 3, 5)]\<rparr>,
            \<lparr>ID = 2, RT = [(1, 1, 1), (2, 2, 0), (3, 3, 1)]\<rparr>,
            \<lparr>ID = 3, RT = [(1, 1, 5), (2, 2, 1), (3, 3, 0)]\<rparr>]"
    by code_simp
  have run: "doBellmanFordAlg
        [\<lparr>ID = 1, RT = [(1, 1, 0), (2, 2, 1), (3, 3, 5)]\<rparr>,
         \<lparr>ID = 2, RT = [(1, 1, 1), (2, 2, 0), (3, 3, 1)]\<rparr>,
         \<lparr>ID = 3, RT = [(1, 1, 5), (2, 2, 1), (3, 3, 0)]\<rparr>]
        [1, 2, 3] [mkLink 1 2 1, mkLink 2 3 1, mkLink 1 3 5]
     = Some (Inr [\<lparr>ID = 1, RT = [(1, 1, 0), (2, 2, 1), (3, 2, 2)]\<rparr>,
                  \<lparr>ID = 2, RT = [(1, 1, 1), (2, 2, 0), (3, 3, 1)]\<rparr>,
                  \<lparr>ID = 3, RT = [(1, 2, 2), (2, 2, 1), (3, 3, 0)]\<rparr>])"
    by code_simp
  from doBellmanFordAlg_converges[OF wf] seed run show ?thesis by auto
qed

text \<open>
  The claim as written fails for node ids below \<open>-1\<close>. On the two links \<open>-2 -3 1\<close> and
  \<open>-3 -4 1\<close> the first pass reaches tables which every later pass writes again
  unchanged, through the equal-cost branch, with \<^verbatim>\<open>updated\<close> set: the loop never ends.
\<close>

theorem doBellmanFordAlg_diverges_counterexample:
  "seedRouters [-4, -3, -2] [mkLink (-2) (-3) 1, mkLink (-3) (-4) 1]
     = Inr [\<lparr>ID = -4, RT = [(-4, -4, 0), (-3, -3, 1), (-2, -1, 9999)]\<rparr>,
            \<lparr>ID = -3, RT = [(-4, -4, 1), (-3, -3, 0), (-2, -2, 1)]\<rparr>,
            \<lparr>ID = -2, RT = [(-4, -1, 9999), (-3, -3, 1), (-2, -2, 0)]\<rparr>]
   \<and> doBellmanFordAlg
        [\<lparr>ID = -4, RT = [(-4, -4, 0), (-3, -3, 1), (-2, -1, 9999)]\<rparr>,
         \<lparr>ID = -3, RT = [(-4, -4, 1), (-3, -3, 0), (-2, -2, 1)]\<rparr>,
         \<lparr>ID = -2, RT = [(-4, -1, 9999), (-3, -3, 1), (-2, -2, 0)]\<rparr>]
        [-4, -3, -2] [mkLink (-2) (-3) 1, mkLink (-3) (-4) 1] = None"
proof -
  let ?ns = "[-4, -3, -2 :: int]"
  let ?ls = "[mkLink (-2) (-3) 1, mkLink (-3) (-4) 1]"
  let ?rs0 = "[\<lparr>ID = -4, RT = [(-4, -4, 0), (-3, -3, 1), (-2, -1, 9999)]\<rparr>,
               \<lparr>ID = -3, RT = [(-4, -4, 1), (-3, -3, 0), (-2, -2, 1)]\<rparr>,
               \<lparr>ID = -2, RT = [(-4, -1, 9999), (-3, -3, 1), (-2, -2, 0)]\<rparr>]"
  let ?rs1 = "[\<lparr>ID = -4, RT = [(-4, -4, 0), (-3, -3, 1), (-2, -3, 2)]\<rparr>,
               \<lparr>ID = -3, RT = [(-4, -4, 1), (-3, -3, 0), (-2, -2, 1)]\<rparr>,
               \<lparr>ID = -2, RT = [(-4, -3, 2), (-3, -3, 1), (-2, -2, 0)]\<rparr>]"
  have seed: "seedRouters ?ns ?ls = Inr ?rs0" by code_simp
  have s0: "sweep ?rs0 ?ns ?ls = Inr (?rs1, True)" by code_simp
  have s1: "sweep ?rs1 ?ns ?ls = Inr (?rs1, True)" by code_simp
  have "doBellmanFordAlg ?rs0 ?ns ?ls = doBellmanFordAlg ?rs1 ?ns ?ls"
    by (subst doBellmanFordAlg.simps) (simp only: s0 sum.case prod.case if_True)
  also have "\<dots> = None" by (rule doBellmanFordAlg_diverges[OF s1])
  finally show ?thesis using seed by simp
qed

text \<open>
  C5, as the code has it. On a topology whose node ids and link costs are not negative,
  whose link costs are at most \<open>2^30 - 1\<close>, whose links join known nodes and which has
  no link from a node to itself, the routers
  seeded as \<^verbatim>\<open>initTopology\<close> and \<^verbatim>\<open>applyChange\<close> seed them converge, and in the
  converged tables every router's entry for its own id is (self, 0).
\<close>

theorem self_route_after_convergence:
  assumes "wf_topology nodes links" and "no_self_links links"
  shows "\<exists>routers0 routers.
           seedRouters nodes links = Inr routers0
         \<and> doBellmanFordAlg routers0 nodes links = Some (Inr routers)
         \<and> list_all (\<lambda>r. getNextHop r (getID r) = getID r \<and> getPathCost r (getID r) = 0) routers"
proof -
  from seedRouters_inv[OF assms(1), of True] assms(2) obtain rs0 where
    "seedRouters nodes links = Inr rs0" "costs_ok nodes rs0" "self_ok rs0" by auto
  with doBellmanFordAlg_terminates[OF assms(1) this(2), of True] show ?thesis
    by (auto simp: self_ok_def)
qed

theorem self_route_after_convergence_witness:
  "seedRouters [1, 2, 3] [mkLink 1 2 1, mkLink 2 3 1, mkLink 1 3 5]
     = Inr [\<lparr>ID = 1, RT = [(1, 1, 0), (2, 2, 1), (3, 3, 5)]\<rparr>,
            \<lparr>ID = 2, RT = [(1, 1, 1), (2, 2, 0), (3, 3, 1)]\<rparr>,
            \<lparr>ID = 3, RT = [(1, 1, 5), (2, 2, 1), (3, 3, 0)]\<rparr>]
   \<and> doBellmanFordAlg
        [\<lparr>ID = 1, RT = [(1, 1, 0), (2, 2, 1), (3, 3, 5)]\<rparr>,
         \<lparr>ID = 2, RT = [(1, 1, 1), (2, 2, 0), (3, 3, 1)]\<rparr>,
         \<lparr>ID = 3, RT = [(1, 1, 5), (2, 2, 1), (3, 3, 0)]\<rparr>]
        [1, 2, 3] [mkLink 1 2 1, mkLink 2 3 1, mkLink 1 3 5]
     = Some (Inr [\<lparr>ID = 1, RT = [(1, 1, 0), (2, 2, 1), (3, 2, 2)]\<rparr>,
                  \<lparr>ID = 2, RT = [(1, 1, 1), (2, 2, 0), (3, 3, 1)]\<rparr>,
                  \<lparr>ID = 3, RT = [(1, 2, 2), (2, 2, 1), (3, 3, 0)]\<rparr>])
   \<and> list_all (\<lambda>r. getNextHop r (getID r) = getID r \<and> getPathCost r (getID r) = 0)
        [\<lparr>ID = 1, RT = [(1, 1, 0), (2, 2, 1), (3, 2, 2)]\<rparr>,
         \<lparr>ID = 2, RT = [(1, 1, 1), (2, 2, 0), (3, 3, 1)]\<rparr>,
         \<lparr>ID = 3, RT = [(1, 2, 2), (2, 2, 1), (3, 3, 0)]\<rparr>]"
proof -
  have wf: "wf_topology [1, 2, 3] [mkLink 1 2 1, mkLink 2 3 1, mkLink 1 3 5]"
    by (simp add: wf_topology_def mkLink_def cost_limit_def)
  have ns: "no_self_links [mkLink 1 2 1, mkLink 2 3 1, mkLink 1 3 5]"
    by (simp add: no_self_links_def mkLink_def)
  have seed: "seedRouters [1, 2, 3] [mkLink 1 2 1, mkLink 2 3 1, mkLink 1 3 5]
     = Inr [\<lparr>ID = 1, RT = [(1, 1, 0), (2, 2, 1), (3, 3, 5)]\<rparr>,
            \<lparr>ID = 2, RT = [(1, 1, 1), (2, 2, 0), (3, 3, 1)]\<rparr>,
            \<lparr>ID = 3, RT = [(1, 1, 5), (2, 2, 1), (3, 3, 0)]\<rparr>]"
    by code_simp
  have run: "doBellmanFordAlg
        [\<lparr>ID = 1, RT = [(1, 1, 0), (2, 2, 1), (3, 3, 5)]\<rparr>,
         \<lparr>ID = 2, RT = [(1, 1, 1), (2, 2, 0), (3, 3, 1)]\<rparr>,
         \<lparr>ID = 3, RT = [(1, 1, 5), (2, 2, 1), (3, 3, 0)]\<rparr>]
        [1, 2, 3] [mkLink 1 2 1, mkLink 2 3 1, mkLink 1 3 5]
     = Some (Inr [\<lparr>ID = 1, RT = [(1, 1, 0), (2, 2, 1), (3, 2, 2)]\<rparr>,
                  \<lparr>ID = 2, RT = [(1, 1, 1), (2, 2, 0), (3, 3, 1)]\<rparr>,
                  \<lparr>ID = 3, RT = [(1, 2, 2), (2, 2, 1), (3, 3, 0)]\<rparr>])"
    by code_simp
  from self_route_after_convergence[OF wf ns] seed run show ?thesis by auto
qed

text \<open>
  The claim as written fails on a topology with a link from a node to itself: the direct
  route of the link \<open>1 1 5\<close> overwrites router 1's own entry, and convergence keeps it.
\<close>

theorem self_route_counterexample:
  "seedRouters [1, 2] [mkLink 1 1 5, mkLink 1 2 1]
     = Inr [\<lparr>ID = 1, RT = [(1, 1, 5), (2, 2, 1)]\<rparr>, \<lparr>ID = 2, RT = [(1, 1, 1), (2, 2, 0)]\<rparr>]
   \<and> doBellmanFordAlg
        [\<lparr>ID = 1, RT = [(1, 1, 5), (2, 2, 1)]\<rparr>, \<lparr>ID = 2, RT = [(1, 1, 1), (2, 2, 0)]\<rparr>]
        [1, 2] [mkLink 1 1 5, mkLink 1 2 1]
     = Some (Inr [\<lparr>ID = 1, RT = [(1, 1, 5), (2, 2, 1)]\<rparr>, \<lparr>ID = 2, RT = [(1, 1, 1), (2, 2, 0)]\<rparr>])
   \<and> getPathCost \<lparr>ID = 1, RT = [(1, 1, 5), (2, 2, 1)]\<rparr> 1 = 5"
  by code_simp

section \<open>A pass without updates changes nothing\<close>

lemma for_each_flag:
  assumes step: "\<And>x s s'. f x s = Inr s' \<Longrightarrow> \<not> flag s' \<Longrightarrow> core s' = core s \<and> \<not> flag s"
    and run: "for_each f xs s = Inr s'" and nf: "\<not> flag s'"
  shows "core s' = core s \<and> \<not> flag s"
  using run
proof (induction xs arbitrary: s)
  case Nil
  with nf show ?case by simp
next
  case (Cons x xs)
  then obtain s1 where s1: "f x s = Inr s1" and rest: "for_each f xs s1 = Inr s'"
    by (auto split: sum.splits)
  from Cons.IH[OF rest] have "core s' = core s1 \<and> \<not> flag s1" .
  with step[OF s1] show ?case by simp
qed

lemma relaxLink_flag:
  assumes "relaxLink i dest l s = Inr s'" "\<not> snd (snd (snd s'))"
  shows "fst s' = fst s \<and> \<not> snd (snd (snd s))"
proof -
  obtain rs cur nnh upd where s: "s = (rs, cur, nnh, upd)" by (cases s) auto
  from assms show ?thesis
    unfolding s by (auto simp: Let_def split: sum.splits if_splits)
qed

lemma scanDest_flag:
  assumes "scanDest links i dest s = Inr s'" "\<not> snd s'"
  shows "fst s' = fst s \<and> \<not> snd s"
proof -
  obtain rs upd where s: "s = (rs, upd)" by (cases s) auto
  from assms(1) obtain rs' cur' nnh' upd' where
    fe: "for_each (relaxLink i dest) links (rs, getPathCost (rs ! i) dest, -1, upd)
           = Inr (rs', cur', nnh', upd')"
    and s': "s' = (rs', upd')"
    by (auto simp: scanDest_def s split: sum.splits)
  have "fst (rs', cur', nnh', upd') = fst (rs, getPathCost (rs ! i) dest, -1 :: int, upd)
        \<and> \<not> snd (snd (snd (rs, getPathCost (rs ! i) dest, -1 :: int, upd)))"
  proof (rule for_each_flag[where f = "relaxLink i dest" and flag = "\<lambda>t. snd (snd (snd t))"
        and core = fst and xs = links])
    show "relaxLink i dest x t = Inr t' \<Longrightarrow> \<not> snd (snd (snd t'))
            \<Longrightarrow> fst t' = fst t \<and> \<not> snd (snd (snd t))" for x t t'
      by (rule relaxLink_flag)
    show "for_each (relaxLink i dest) links (rs, getPathCost (rs ! i) dest, -1, upd)
            = Inr (rs', cur', nnh', upd')" by (rule fe)
    show "\<not> snd (snd (snd (rs', cur', nnh', upd')))" using assms(2) s' by simp
  qed
  then show ?thesis by (simp add: s s')
qed

lemma scanRouter_flag:
  assumes "scanRouter nodes links i s = Inr s'" "\<not> snd s'"
  shows "fst s' = fst s \<and> \<not> snd s"
proof (rule for_each_flag[where f = "scanDest links i" and flag = snd and core = fst and xs = nodes])
  show "scanDest links i x t = Inr t' \<Longrightarrow> \<not> snd t' \<Longrightarrow> fst t' = fst t \<and> \<not> snd t" for x t t'
    by (rule scanDest_flag)
  show "for_each (scanDest links i) nodes s = Inr s'" using assms(1) by (simp add: scanRouter_def)
  show "\<not> snd s'" by (rule assms(2))
qed

lemma sweep_flag:
  assumes "sweep rs nodes links = Inr (rs', False)"
  shows "rs' = rs"
proof -
  have "fst (rs', False) = fst (rs, False) \<and> \<not> snd (rs, False)"
  proof (rule for_each_flag[where f = "scanRouter nodes links" and flag = snd and core = fst
        and xs = "[0..<length rs]"])
    show "scanRouter nodes links x t = Inr t' \<Longrightarrow> \<not> snd t' \<Longrightarrow> fst t' = fst t \<and> \<not> snd t"
      for x t t'
      by (rule scanRouter_flag)
    show "for_each (scanRouter nodes links) [0..<length rs] (rs, False) = Inr (rs', False)"
      using assms by (simp add: sweep_def)
    show "\<not> snd (rs', False)" by simp
  qed
  then show ?thesis by simp
qed

lemma doBellmanFordAlg_result:
  assumes y: "doBellmanFordAlg rs nodes links = Some y"
  shows "\<forall>r. y = Inr r \<longrightarrow> sweep r nodes links = Inr (r, False)"
proof (rule doBellmanFordAlg.raw_induct
    [where P = "\<lambda>rs n l y. \<forall>r. y = Inr r \<longrightarrow> sweep r n l = Inr (r, False)", OF _ y])
  fix f :: "Router list \<Rightarrow> int list \<Rightarrow> Link list \<Rightarrow> (error + Router list) option"
    and routers ns ls res
  assume ih: "\<And>a b c y. f a b c = Some y \<Longrightarrow> \<forall>r. y = Inr r \<longrightarrow> sweep r b c = Inr (r, False)"
    and step: "(case sweep routers ns ls of
                  Inl e \<Rightarrow> Some (Inl e)
                | Inr (routers', updated) \<Rightarrow>
                    if updated then f routers' ns ls else Some (Inr routers')) = Some res"
  show "\<forall>r. res = Inr r \<longrightarrow> sweep r ns ls = Inr (r, False)"
  proof (cases "sweep routers ns ls")
    case (Inl e)
    with step show ?thesis by auto
  next
    case (Inr p)
    obtain rs' upd where p: "p = (rs', upd)" by (cases p) auto
    show ?thesis
    proof (cases upd)
      case True
      with step Inr p have "f rs' ns ls = Some res" by simp
      from ih[OF this] show ?thesis .
    next
      case False
      with step Inr p have res: "res = Inr rs'" by simp
      from Inr p False have sw: "sweep routers ns ls = Inr (rs', False)" by simp
      from sweep_flag[OF sw] sw res show ?thesis by simp
    qed
  qed
qed

text \<open>
  C6. If \<^verbatim>\<open>doBellmanFordAlg\<close> has returned tables, a full pass over them updates
  nothing, and running \<^verbatim>\<open>doBellmanFordAlg\<close> on them again, with the same node ids and
  links, returns them unchanged.
\<close>

theorem doBellmanFordAlg_idempotent:
  assumes "doBellmanFordAlg routers nodes links = Some (Inr routers')"
  shows "sweep routers' nodes links = Inr (routers', False)
       \<and> doBellmanFordAlg routers' nodes links = Some (Inr routers')"
proof -
  from doBellmanFordAlg_result[OF assms] have sw: "sweep routers' nodes links = Inr (routers', False)"
    by simp
  then have "doBellmanFordAlg routers' nodes links = Some (Inr routers')"
    by (subst doBellmanFordAlg.simps) simp
  with sw show ?thesis by simp
qed

theorem doBellmanFordAlg_idempotent_witness:
  "doBellmanFordAlg
     [\<lparr>ID = 1, RT = [(1, 1, 0), (2, 2, 1), (3, 3, 5)]\<rparr>,
      \<lparr>ID = 2, RT = [(1, 1, 1), (2, 2, 0), (3, 3, 1)]\<rparr>,
      \<lparr>ID = 3, RT = [(1, 1, 5), (2, 2, 1), (3, 3, 0)]\<rparr>]
     [1, 2, 3] [mkLink 1 2 1, mkLink 2 3 1, mkLink 1 3 5]
   = Some (Inr [\<lparr>ID = 1, RT = [(1, 1, 0), (2, 2, 1), (3, 2, 2)]\<rparr>,
                \<lparr>ID = 2, RT = [(1, 1, 1), (2, 2, 0), (3, 3, 1)]\<rparr>,
                \<lparr>ID = 3, RT = [(1, 2, 2), (2, 2, 1), (3, 3, 0)]\<rparr>])
   \<and> doBellmanFordAlg
       [\<lparr>ID = 1, RT = [(1, 1, 0), (2, 2, 1), (3, 2, 2)]\<rparr>,
        \<lparr>ID = 2, RT = [(1, 1, 1), (2, 2, 0), (3, 3, 1)]\<rparr>,
        \<lparr>ID = 3, RT = [(1, 2, 2), (2, 2, 1), (3, 3, 0)]\<rparr>]
       [1, 2, 3] [mkLink 1 2 1, mkLink 2 3 1, mkLink 1 3 5]
   = Some (Inr [\<lparr>ID = 1, RT = [(1, 1, 0), (2, 2, 1), (3, 2, 2)]\<rparr>,
                \<lparr>ID = 2, RT = [(1, 1, 1), (2, 2, 0), (3, 3, 1)]\<rparr>,
                \<lparr>ID = 3, RT = [(1, 2, 2), (2, 2, 1), (3, 3, 0)]\<rparr>])"
proof -
  have run: "doBellmanFordAlg
     [\<lparr>ID = 1, RT = [(1, 1, 0), (2, 2, 1), (3, 3, 5)]\<rparr>,
      \<lparr>ID = 2, RT = [(1, 1, 1), (2, 2, 0), (3, 3, 1)]\<rparr>,
      \<lparr>ID = 3, RT = [(1, 1, 5), (2, 2, 1), (3, 3, 0)]\<rparr>]
     [1, 2, 3] [mkLink 1 2 1, mkLink 2 3 1, mkLink 1 3 5]
   = Some (Inr [\<lparr>ID = 1, RT = [(1, 1, 0), (2, 2, 1), (3, 2, 2)]\<rparr>,
                \<lparr>ID = 2, RT = [(1, 1, 1), (2, 2, 0), (3, 3, 1)]\<rparr>,
                \<lparr>ID = 3, RT = [(1, 2, 2), (2, 2, 1), (3, 3, 0)]\<rparr>])"
    by code_simp
  from doBellmanFordAlg_idempotent[OF run] run show ?thesis by simp
qed

section \<open>Removing a link that is not there\<close>

lemma nodes_insert_member: "x \<in> set ns \<Longrightarrow> nodes_insert x ns = ns"
  by (simp add: nodes_insert_def)

lemma removeLink_absent: "links_between c links = [] \<Longrightarrow> removeLink links c = links"
  by (simp add: links_between_def removeLink_def filter_empty_conv filter_id_conv)

text \<open>
  C8. Let the change have the removal cost \<open>-999\<close>, let no link join its two endpoints
  and let both be known node ids. If the tables before the change are the converged tables
  of the current topology (which is what the simulator holds when it reads a change), then
  \<^verbatim>\<open>applyChange\<close> leaves the node-id set and the link list as they were, and the
  reconvergence returns, with the tables that were there before the change.
\<close>

theorem removal_of_absent_link:
  assumes "pathCost change = -999"
    and "links_between change links = []"
    and "node1 change \<in> set nodes" and "node2 change \<in> set nodes"
    and "seedRouters nodes links = Inr routers0"
    and "doBellmanFordAlg routers0 nodes links = Some (Inr routers)"
  shows "\<exists>routers1. applyChange change routers nodes links = Inr (routers1, nodes, links)
           \<and> doBellmanFordAlg routers1 nodes links = Some (Inr routers)"
  using assms
  by (simp add: applyChange_seed nodes_insert_member removeLink_absent)

theorem removal_of_absent_link_witness:
  "\<exists>routers1.
     applyChange (mkLink 1 3 (-999))
       [\<lparr>ID = 1, RT = [(1, 1, 0), (2, 2, 1), (3, 2, 2)]\<rparr>,
        \<lparr>ID = 2, RT = [(1, 1, 1), (2, 2, 0), (3, 3, 1)]\<rparr>,
        \<lparr>ID = 3, RT = [(1, 2, 2), (2, 2, 1), (3, 3, 0)]\<rparr>]
       [1, 2, 3] [mkLink 1 2 1, mkLink 2 3 1]
     = Inr (routers1, [1, 2, 3], [mkLink 1 2 1, mkLink 2 3 1])
   \<and> doBellmanFordAlg routers1 [1, 2, 3] [mkLink 1 2 1, mkLink 2 3 1]
     = Some (Inr [\<lparr>ID = 1, RT = [(1, 1, 0), (2, 2, 1), (3, 2, 2)]\<rparr>,
                  \<lparr>ID = 2, RT = [(1, 1, 1), (2, 2, 0), (3, 3, 1)]\<rparr>,
                  \<lparr>ID = 3, RT = [(1, 2, 2), (2, 2, 1), (3, 3, 0)]\<rparr>])"
proof -
  have a: "pathCost (mkLink 1 3 (-999)) = -999" by (simp add: mkLink_def)
  have b: "links_between (mkLink 1 3 (-999)) [mkLink 1 2 1, mkLink 2 3 1] = []"
    by (simp add: links_between_def link_matches_def mkLink_def)
  have c: "node1 (mkLink 1 3 (-999)) \<in> set [1, 2, 3]" "node2 (mkLink 1 3 (-999)) \<in> set [1, 2, 3]"
    by (simp_all add: mkLink_def)
  have d: "seedRouters [1, 2, 3] [mkLink 1 2 1, mkLink 2 3 1]
     = Inr [\<lparr>ID = 1, RT = [(1, 1, 0), (2, 2, 1), (3, -1, 9999)]\<rparr>,
            \<lparr>ID = 2, RT = [(1, 1, 1), (2, 2, 0), (3, 3, 1)]\<rparr>,
            \<lparr>ID = 3, RT = [(1, -1, 9999), (2, 2, 1), (3, 3, 0)]\<rparr>]"
    by code_simp
  have e: "doBellmanFordAlg
       [\<lparr>ID = 1, RT = [(1, 1, 0), (2, 2, 1), (3, -1, 9999)]\<rparr>,
        \<lparr>ID = 2, RT = [(1, 1, 1), (2, 2, 0), (3, 3, 1)]\<rparr>,
        \<lparr>ID = 3, RT = [(1, -1, 9999), (2, 2, 1), (3, 3, 0)]\<rparr>]
       [1, 2, 3] [mkLink 1 2 1, mkLink 2 3 1]
     = Some (Inr [\<lparr>ID = 1, RT = [(1, 1, 0), (2, 2, 1), (3, 2, 2)]\<rparr>,
                  \<lparr>ID = 2, RT = [(1, 1, 1), (2, 2, 0), (3, 3, 1)]\<rparr>,
                  \<lparr>ID = 3, RT = [(1, 2, 2), (2, 2, 1), (3, 3, 0)]\<rparr>])"
    by code_simp
  from removal_of_absent_link[OF a b c d e] show ?thesis .
qed

section \<open>The equal-cost comparison\<close>

text \<open>
  While \<^verbatim>\<open>newNextHop\<close> has its initial value \<open>-1\<close>, an equal-cost candidate is adopted
  exactly when the neighbour id is below \<open>-1\<close>.
\<close>

lemma relaxLink_tie_initial:
  assumes "neighbourOf (getID (routers ! i)) link = N" and "N \<noteq> -1" and "N \<noteq> dest"
    and "getRouterByID routers N = Inr j"
    and "getNextHop (routers ! j) dest \<noteq> getID (routers ! i)"
    and "getPathCost (routers ! i) N + getPathCost (routers ! j) dest = cur"
    and "int_range cur"
  shows "relaxLink i dest link (routers, cur, -1, upd) =
           (if N < -1 then Inr (routers[i := addRoute dest N cur (routers ! i)], cur, N, True)
            else Inr (routers, cur, -1, upd))"
  using assms by (simp add: Let_def)

text \<open>
  C7. There is a topology and a state of the pass in which the equal-cost comparison
  replaces the next hop the table held at the start of the scan. With the links
  \<open>-2 -3 1\<close>, \<open>-2 -4 1\<close>, \<open>-3 -4 0\<close>, router \<open>-4\<close>, the first router of the first
  pass, leaves the seeded tables as they are for the destinations \<open>-4\<close> and \<open>-3\<close> and
  starts the scan for destination \<open>-2\<close> with the entry (\<open>-2\<close>, 1). Over the link \<open>-3 -4 0\<close> the
  candidate through \<open>-3\<close> costs 1 as well; \<^verbatim>\<open>newNextHop\<close> still has its initial value
  \<open>-1\<close>, no neighbour having been assigned to it, \<open>-3\<close> is below it, and the entry
  becomes (\<open>-3\<close>, 1).
\<close>

theorem tie_break_replaces_initial_hop:
  "seedRouters [-4, -3, -2] [mkLink (-2) (-3) 1, mkLink (-2) (-4) 1, mkLink (-3) (-4) 0]
     = Inr [\<lparr>ID = -4, RT = [(-4, -4, 0), (-3, -3, 0), (-2, -2, 1)]\<rparr>,
            \<lparr>ID = -3, RT = [(-4, -4, 0), (-3, -3, 0), (-2, -2, 1)]\<rparr>,
            \<lparr>ID = -2, RT = [(-4, -4, 1), (-3, -3, 1), (-2, -2, 0)]\<rparr>]
   \<and> for_each (scanDest [mkLink (-2) (-3) 1, mkLink (-2) (-4) 1, mkLink (-3) (-4) 0] 0) [-4, -3]
       ([\<lparr>ID = -4, RT = [(-4, -4, 0), (-3, -3, 0), (-2, -2, 1)]\<rparr>,
         \<lparr>ID = -3, RT = [(-4, -4, 0), (-3, -3, 0), (-2, -2, 1)]\<rparr>,
         \<lparr>ID = -2, RT = [(-4, -4, 1), (-3, -3, 1), (-2, -2, 0)]\<rparr>], False)
     = Inr ([\<lparr>ID = -4, RT = [(-4, -4, 0), (-3, -3, 0), (-2, -2, 1)]\<rparr>,
             \<lparr>ID = -3, RT = [(-4, -4, 0), (-3, -3, 0), (-2, -2, 1)]\<rparr>,
             \<lparr>ID = -2, RT = [(-4, -4, 1), (-3, -3, 1), (-2, -2, 0)]\<rparr>], False)
   \<and> getPathCost \<lparr>ID = -4, RT = [(-4, -4, 0), (-3, -3, 0), (-2, -2, 1)]\<rparr> (-3)
       + getPathCost \<lparr>ID = -3, RT = [(-4, -4, 0), (-3, -3, 0), (-2, -2, 1)]\<rparr> (-2)
     = getPathCost \<lparr>ID = -4, RT = [(-4, -4, 0), (-3, -3, 0), (-2, -2, 1)]\<rparr> (-2)
   \<and> relaxLink 0 (-2) (mkLink (-3) (-4) 0)
       ([\<lparr>ID = -4, RT = [(-4, -4, 0), (-3, -3, 0), (-2, -2, 1)]\<rparr>,
         \<lparr>ID = -3, RT = [(-4, -4, 0), (-3, -3, 0), (-2, -2, 1)]\<rparr>,
         \<lparr>ID = -2, RT = [(-4, -4, 1), (-3, -3, 1), (-2, -2, 0)]\<rparr>], 1, -1, False)
     = Inr ([\<lparr>ID = -4, RT = [(-4, -4, 0), (-3, -3, 0), (-2, -3, 1)]\<rparr>,
             \<lparr>ID = -3, RT = [(-4, -4, 0), (-3, -3, 0), (-2, -2, 1)]\<rparr>,
             \<lparr>ID = -2, RT = [(-4, -4, 1), (-3, -3, 1), (-2, -2, 0)]\<rparr>], 1, -3, True)
   \<and> scanDest [mkLink (-2) (-3) 1, mkLink (-2) (-4) 1, mkLink (-3) (-4) 0] 0 (-2)
       ([\<lparr>ID = -4, RT = [(-4, -4, 0), (-3, -3, 0), (-2, -2, 1)]\<rparr>,
         \<lparr>ID = -3, RT = [(-4, -4, 0), (-3, -3, 0), (-2, -2, 1)]\<rparr>,
         \<lparr>ID = -2, RT = [(-4, -4, 1), (-3, -3, 1), (-2, -2, 0)]\<rparr>], False)
     = Inr ([\<lparr>ID = -4, RT = [(-4, -4, 0), (-3, -3, 0), (-2, -3, 1)]\<rparr>,
             \<lparr>ID = -3, RT = [(-4, -4, 0), (-3, -3, 0), (-2, -2, 1)]\<rparr>,
             \<lparr>ID = -2, RT = [(-4, -4, 1), (-3, -3, 1), (-2, -2, 0)]\<rparr>], True)
   \<and> getNextHop \<lparr>ID = -4, RT = [(-4, -4, 0), (-3, -3, 0), (-2, -2, 1)]\<rparr> (-2) = -2
   \<and> getNextHop \<lparr>ID = -4, RT = [(-4, -4, 0), (-3, -3, 0), (-2, -3, 1)]\<rparr> (-2) = -3"
  by code_simp

section \<open>Messages to a destination that is not a node\<close>

lemma for_each_preserves:
  assumes "\<And>x s s'. x \<in> set xs \<Longrightarrow> Inv s \<Longrightarrow> f x s = Inr s' \<Longrightarrow> Inv s'"
    and "Inv s" and "for_each f xs s = Inr s'"
  shows "Inv s'"
  using assms
proof (induction xs arbitrary: s)
  case Nil
  then show ?case by simp
next
  case (Cons x xs)
  from Cons.prems(3) obtain s1 where s1: "f x s = Inr s1" and rest: "for_each f xs s1 = Inr s'"
    by (auto split: sum.splits)
  from Cons.prems(1)[of x s s1] Cons.prems(2) s1 have i1: "Inv s1" by simp
  have "Inv t'" if "y \<in> set xs" "Inv t" "f y t = Inr t'" for y t t'
    using Cons.prems(1)[of y t t'] that by simp
  from Cons.IH[OF this i1 rest] show ?case .
qed

lemma set_table_put: "set (table_put k v t) \<subseteq> insert (k, v) (set t)"
  by (induction t) (auto split: if_splits)

lemma keys_RoutingTable:
  assumes "e \<in> set (RoutingTable i ns)"
  shows "fst e \<in> set ns"
proof -
  from assms have "fst e \<in> fst ` set (RoutingTable i ns)" by (rule imageI)
  then have "map_of (RoutingTable i ns) (fst e) \<noteq> None" by (simp add: map_of_eq_None_iff)
  then show ?thesis by (simp add: map_of_RoutingTable split: if_splits)
qed

lemma tables_within_emplace: "tables_within nodes (emplace_routers nodes [])"
  by (auto simp: tables_within_def emplace_routers_eq mkRouter_def comp_def list_all_iff
        dest: keys_RoutingTable)

lemma tables_within_update:
  assumes "tables_within nodes rs" "d \<in> set nodes"
  shows "tables_within nodes (rs[k := addRoute d h c (rs ! k)])"
proof (cases "k < length rs")
  case True
  have "list_all (\<lambda>e. fst e \<in> set nodes) (RT r)"
    if "r \<in> set (rs[k := addRoute d h c (rs ! k)])" for r
  proof -
    from that set_update_subset_insert[of rs k]
    have "r = addRoute d h c (rs ! k) \<or> r \<in> set rs" by auto
    then show ?thesis
    proof
      assume r: "r = addRoute d h c (rs ! k)"
      from assms(1) True have "list_all (\<lambda>e. fst e \<in> set nodes) (RT (rs ! k))"
        by (auto simp: tables_within_def list_all_iff)
      with assms(2) set_table_put[of d "(h, c)" "RT (rs ! k)"] show ?thesis
        by (auto simp: r addRoute_def rt_addRoute_def list_all_iff)
    next
      assume "r \<in> set rs"
      with assms(1) show ?thesis by (auto simp: tables_within_def list_all_iff)
    qed
  qed
  with assms(1) show ?thesis
    by (simp add: tables_within_def map_ID_update list_all_iff)
next
  case False
  with assms(1) show ?thesis by (simp add: list_update_beyond)
qed

lemma tables_within_found:
  assumes "tables_within nodes rs" "getRouterByID rs n = Inr k"
  shows "n \<in> set nodes"
proof -
  from getRouterByID_Inr[OF assms(2)] have "k < length rs" "ID (rs ! k) = n" by auto
  then have "n \<in> ID ` set rs" by (metis imageI nth_mem)
  with assms(1) show ?thesis by (metis tables_within_def set_map)
qed

lemma addDirect_tables_within:
  assumes "tables_within nodes s" "addDirect l s = Inr s'"
  shows "tables_within nodes s'"
proof -
  from assms(2) obtain i where i: "getRouterByID s (node1 l) = Inr i"
    by (auto simp: addDirect_def split: sum.splits)
  define s1 where "s1 = s[i := addRoute (node2 l) (node2 l) (pathCost l) (s ! i)]"
  from assms(2) i obtain j where j: "getRouterByID s1 (node2 l) = Inr j"
    and s': "s' = s1[j := addRoute (node1 l) (node1 l) (pathCost l) (s1 ! j)]"
    by (auto simp: addDirect_def Let_def s1_def split: sum.splits)
  from j have "getRouterByID s (node2 l) = Inr j" by (simp add: s1_def getRouterByID_update)
  with i assms(1) have n: "node1 l \<in> set nodes" "node2 l \<in> set nodes"
    by (auto dest: tables_within_found)
  from tables_within_update[OF assms(1) n(2)] have "tables_within nodes s1" by (simp add: s1_def)
  from tables_within_update[OF this n(1)] show ?thesis by (simp add: s')
qed

lemma seedRouters_tables_within:
  assumes "seedRouters nodes links = Inr rs"
  shows "tables_within nodes rs"
proof (rule for_each_preserves[where f = addDirect and xs = links and Inv = "tables_within nodes"])
  show "tables_within nodes s \<Longrightarrow> addDirect x s = Inr s' \<Longrightarrow> tables_within nodes s'" for x s s'
    by (rule addDirect_tables_within)
  show "tables_within nodes (emplace_routers nodes [])" by (rule tables_within_emplace)
  show "for_each addDirect links (emplace_routers nodes []) = Inr rs"
    using assms by (simp add: seedRouters_def)
qed

lemma relaxLink_tables_within:
  assumes "tables_within nodes (fst s)" "dest \<in> set nodes" "relaxLink i dest l s = Inr s'"
  shows "tables_within nodes (fst s')"
proof -
  obtain rs cur nnh upd where s: "s = (rs, cur, nnh, upd)" by (cases s) auto
  from assms show ?thesis
    unfolding s
    by (auto simp: Let_def split: sum.splits if_splits intro: tables_within_update)
qed

lemma scanDest_tables_within:
  assumes "tables_within nodes (fst s)" "dest \<in> set nodes" "scanDest links i dest s = Inr s'"
  shows "tables_within nodes (fst s')"
proof -
  obtain rs upd where s: "s = (rs, upd)" by (cases s) auto
  from assms(3) obtain t where
    fe: "for_each (relaxLink i dest) links (rs, getPathCost (rs ! i) dest, -1, upd) = Inr t"
    and s': "fst s' = fst t"
    by (auto simp: scanDest_def s split: sum.splits)
  have "tables_within nodes (fst t)"
  proof (rule for_each_preserves[where f = "relaxLink i dest" and xs = links
        and Inv = "\<lambda>t. tables_within nodes (fst t)"])
    show "tables_within nodes (fst u) \<Longrightarrow> relaxLink i dest x u = Inr u'
            \<Longrightarrow> tables_within nodes (fst u')" for x u u'
      using assms(2) by (rule relaxLink_tables_within[rotated])
    show "tables_within nodes (fst (rs, getPathCost (rs ! i) dest, -1 :: int, upd))"
      using assms(1) by (simp add: s)
    show "for_each (relaxLink i dest) links (rs, getPathCost (rs ! i) dest, -1, upd) = Inr t"
      by (rule fe)
  qed
  with s' show ?thesis by simp
qed

lemma scanRouter_tables_within:
  assumes "tables_within nodes (fst s)" "scanRouter nodes links i s = Inr s'"
  shows "tables_within nodes (fst s')"
proof (rule for_each_preserves[where f = "scanDest links i" and xs = nodes
      and Inv = "\<lambda>t. tables_within nodes (fst t)"])
  show "x \<in> set nodes \<Longrightarrow> tables_within nodes (fst u) \<Longrightarrow> scanDest links i x u = Inr u'
          \<Longrightarrow> tables_within nodes (fst u')" for x u u'
    by (rule scanDest_tables_within)
  show "tables_within nodes (fst s)" by (rule assms(1))
  show "for_each (scanDest links i) nodes s = Inr s'" using assms(2) by (simp add: scanRouter_def)
qed

lemma sweep_tables_within:
  assumes "tables_within nodes rs" "sweep rs nodes links = Inr (rs', upd)"
  shows "tables_within nodes rs'"
proof -
  have "tables_within nodes (fst (rs', upd))"
  proof (rule for_each_preserves[where f = "scanRouter nodes links" and xs = "[0..<length rs]"
        and Inv = "\<lambda>t. tables_within nodes (fst t)"])
    show "tables_within nodes (fst u) \<Longrightarrow> scanRouter nodes links x u = Inr u'
            \<Longrightarrow> tables_within nodes (fst u')" for x u u'
      by (rule scanRouter_tables_within)
    show "tables_within nodes (fst (rs, False))" using assms(1) by simp
    show "for_each (scanRouter nodes links) [0..<length rs] (rs, False) = Inr (rs', upd)"
      using assms(2) by (simp add: sweep_def)
  qed
  then show ?thesis by simp
qed

lemma doBellmanFordAlg_tables_within:
  assumes y: "doBellmanFordAlg rs nodes links = Some y"
  shows "tables_within nodes rs \<longrightarrow> (\<forall>r. y = Inr r \<longrightarrow> tables_within nodes r)"
proof (rule doBellmanFordAlg.raw_induct
    [where P = "\<lambda>rs n l y. tables_within n rs \<longrightarrow> (\<forall>r. y = Inr r \<longrightarrow> tables_within n r)", OF _ y])
  fix f :: "Router list \<Rightarrow> int list \<Rightarrow> Link list \<Rightarrow> (error + Router list) option"
    and routers ns ls res
  assume ih: "\<And>a b c y. f a b c = Some y
                \<Longrightarrow> tables_within b a \<longrightarrow> (\<forall>r. y = Inr r \<longrightarrow> tables_within b r)"
    and step: "(case sweep routers ns ls of
                  Inl e \<Rightarrow> Some (Inl e)
                | Inr (routers', updated) \<Rightarrow>
                    if updated then f routers' ns ls else Some (Inr routers')) = Some res"
  show "tables_within ns routers \<longrightarrow> (\<forall>r. res = Inr r \<longrightarrow> tables_within ns r)"
  proof
    assume tw: "tables_within ns routers"
    show "\<forall>r. res = Inr r \<longrightarrow> tables_within ns r"
    proof (cases "sweep routers ns ls")
      case (Inl e)
      with step show ?thesis by auto
    next
      case (Inr p)
      obtain rs' upd where p: "p = (rs', upd)" by (cases p) auto
      from Inr p have sw: "sweep routers ns ls = Inr (rs', upd)" by simp
      from sweep_tables_within[OF tw sw] have tw': "tables_within ns rs'" .
      show ?thesis
      proof (cases upd)
        case True
        with step sw have "f rs' ns ls = Some res" by simp
        from ih[OF this] tw' show ?thesis by simp
      next
        case False
        with step sw tw' show ?thesis by auto
      qed
    qed
  qed
qed

lemma hopWalk_unknown:
  assumes tw: "tables_within nodes routers"
    and src: "src \<in> set nodes" and dst: "dst \<notin> set nodes"
  shows "\<exists>k. getRouterByID routers src = Inr k
           \<and> getPathCost (routers ! k) dst = -1 \<and> getNextHop (routers ! k) dst = -1
           \<and> hopWalk routers dst src [] =
               (if dst = -1 then Some (Inr [src])
                else case getRouterByID routers (-1) of
                       Inl e \<Rightarrow> Some (Inl e)
                     | Inr k' \<Rightarrow> hopWalk routers dst (getNextHop (routers ! k') dst) [src, -1])"
proof -
  from tw src have "src \<in> ID ` set routers" by (metis tables_within_def set_map)
  then obtain k where k: "getRouterByID routers src = Inr k"
    using getRouterByID_found by blast
  from getRouterByID_Inr[OF k] have kl: "k < length routers" by simp
  with tw have "\<forall>e\<in>set (RT (routers ! k)). fst e \<in> set nodes"
    by (auto simp: tables_within_def list_all_iff)
  with dst have none: "map_of (RT (routers ! k)) dst = None"
    by (auto simp: map_of_eq_None_iff)
  then have pc: "getPathCost (routers ! k) dst = -1" and nh: "getNextHop (routers ! k) dst = -1"
    by (simp_all add: getPathCost_def rt_getPathCost_def getNextHop_def rt_getNextHop_def)
  from src dst have ne: "src \<noteq> dst" by auto
  have "hopWalk routers dst src [] = hopWalk routers dst (-1) [src]"
    using ne k nh by (subst hopWalk.simps) simp
  also have "\<dots> = (if dst = -1 then Some (Inr [src])
                else case getRouterByID routers (-1) of
                       Inl e \<Rightarrow> Some (Inl e)
                     | Inr k' \<Rightarrow> hopWalk routers dst (getNextHop (routers ! k') dst) [src, -1])"
    using hopWalk.simps[of routers dst "-1" "[src]"] by (auto split: sum.splits)
  finally show ?thesis using k pc nh by blast
qed

text \<open>
  C10, as the code has it. On converged tables, for a message whose source is a node id and
  whose destination is not: the source router's \<^verbatim>\<open>getPathCost\<close> and \<^verbatim>\<open>getNextHop\<close> for
  the destination both return \<open>-1\<close>, so the message is not reported as unreachable; and
  when the destination is not \<open>-1\<close> and \<open>-1\<close> is not a node id, the hop walk asks
  \<^verbatim>\<open>getRouterByID\<close> for the router \<open>-1\<close>, which throws.
\<close>

theorem sendMessage_unknown_destination:
  assumes "seedRouters nodes links = Inr routers0"
    and "doBellmanFordAlg routers0 nodes links = Some (Inr routers)"
    and "sourceID m \<in> set nodes" and "destinationID m \<notin> set nodes"
  shows "(\<exists>k. getRouterByID routers (sourceID m) = Inr k
            \<and> getPathCost (routers ! k) (destinationID m) = -1
            \<and> getNextHop (routers ! k) (destinationID m) = -1)
       \<and> sendMessage routers m \<noteq> Some (Inr (Unreachable (sourceID m) (destinationID m) (message m)))
       \<and> (destinationID m \<noteq> -1 \<and> -1 \<notin> set nodes \<longrightarrow>
            sendMessage routers m = Some (Inl RouterNotFound))"
proof -
  from doBellmanFordAlg_tables_within[OF assms(2)] seedRouters_tables_within[OF assms(1)]
  have tw: "tables_within nodes routers" by simp
  from hopWalk_unknown[OF tw assms(3,4)] obtain k where
    k: "getRouterByID routers (sourceID m) = Inr k"
    and pc: "getPathCost (routers ! k) (destinationID m) = -1"
    and nh: "getNextHop (routers ! k) (destinationID m) = -1"
    and hw: "hopWalk routers (destinationID m) (sourceID m) [] =
               (if destinationID m = -1 then Some (Inr [sourceID m])
                else case getRouterByID routers (-1) of
                       Inl e \<Rightarrow> Some (Inl e)
                     | Inr k' \<Rightarrow> hopWalk routers (destinationID m)
                                  (getNextHop (routers ! k') (destinationID m)) [sourceID m, -1])"
    by blast
  have nu: "sendMessage routers m \<noteq> Some (Inr (Unreachable (sourceID m) (destinationID m) (message m)))"
    using k pc by (auto simp: sendMessage_def Let_def split: option.splits sum.splits)
  have thr: "sendMessage routers m = Some (Inl RouterNotFound)"
    if "destinationID m \<noteq> -1" "-1 \<notin> set nodes"
  proof -
    from that(2) tw have "\<forall>r\<in>set routers. ID r \<noteq> -1" by (metis tables_within_def set_map imageI)
    then have "getRouterByID routers (-1) = Inl RouterNotFound"
      by (simp add: getRouterByID_Inl)
    with hw that(1) have "hopWalk routers (destinationID m) (sourceID m) [] = Some (Inl RouterNotFound)"
      by simp
    with k pc show ?thesis by (simp add: sendMessage_def Let_def)
  qed
  from k pc nh nu thr show ?thesis by blast
qed

theorem sendMessage_unknown_destination_witness:
  "sendMessage [\<lparr>ID = 1, RT = [(1, 1, 0), (2, 2, 1)]\<rparr>, \<lparr>ID = 2, RT = [(1, 1, 1), (2, 2, 0)]\<rparr>]
     \<lparr>sourceID = 1, destinationID = 7, message = ''hello''\<rparr> = Some (Inl RouterNotFound)"
proof -
  have a: "seedRouters [1, 2] [mkLink 1 2 1]
     = Inr [\<lparr>ID = 1, RT = [(1, 1, 0), (2, 2, 1)]\<rparr>, \<lparr>ID = 2, RT = [(1, 1, 1), (2, 2, 0)]\<rparr>]"
    by code_simp
  have b: "doBellmanFordAlg
       [\<lparr>ID = 1, RT = [(1, 1, 0), (2, 2, 1)]\<rparr>, \<lparr>ID = 2, RT = [(1, 1, 1), (2, 2, 0)]\<rparr>]
       [1, 2] [mkLink 1 2 1]
     = Some (Inr [\<lparr>ID = 1, RT = [(1, 1, 0), (2, 2, 1)]\<rparr>, \<lparr>ID = 2, RT = [(1, 1, 1), (2, 2, 0)]\<rparr>])"
    by code_simp
  have c: "sourceID \<lparr>sourceID = 1, destinationID = 7, message = ''hello''\<rparr> \<in> set [1, 2]"
    by simp
  have d: "destinationID \<lparr>sourceID = 1, destinationID = 7, message = ''hello''\<rparr> \<notin> set [1, 2]"
    by simp
  from sendMessage_unknown_destination[OF a b c d] show ?thesis by simp
qed

text \<open>
  The claim as written fails for the destination \<open>-1\<close>: the next hop \<open>-1\<close> that
  \<^verbatim>\<open>getNextHop\<close> returns for the unknown destination is the destination itself, the walk
  ends, nothing is thrown, and the message is reported as delivered at cost \<open>-1\<close>.
\<close>

theorem sendMessage_unknown_destination_counterexample:
  "sendMessage [\<lparr>ID = 1, RT = [(1, 1, 0), (2, 2, 1)]\<rparr>, \<lparr>ID = 2, RT = [(1, 1, 1), (2, 2, 0)]\<rparr>]
     \<lparr>sourceID = 1, destinationID = -1, message = ''hello''\<rparr>
   = Some (Inr (Delivered 1 (-1) (-1) [1] ''hello''))"
  by code_simp

section \<open>Every step of a pass\<close>

lemma for_each_split:
  assumes "for_each f (xs @ y # ys) s = Inr s'"
  shows "\<exists>s1 s2. for_each f xs s = Inr s1 \<and> f y s1 = Inr s2 \<and> for_each f ys s2 = Inr s'"
  using assms by (auto simp: for_each_append split: sum.splits)

lemma upt_split: "i < n \<Longrightarrow> [0..<n] = [0..<i] @ i # [Suc i..<n]"
proof -
  assume "i < n"
  then have "[0..<n] = [0..<i] @ [i..<n]"
    using upt_add_eq_append[of 0 i "n - i"] by simp
  with \<open>i < n\<close> show ?thesis by (simp add: upt_conv_Cons)
qed

lemma relaxLink_length:
  assumes "relaxLink i dest l s = Inr s'"
  shows "length (fst s') = length (fst s)"
proof -
  obtain rs cur nnh upd where s: "s = (rs, cur, nnh, upd)" by (cases s) auto
  from assms show ?thesis
    unfolding s by (auto simp: Let_def split: sum.splits if_splits)
qed

lemma scanDest_length:
  assumes "scanDest links i dest s = Inr s'"
  shows "length (fst s') = length (fst s)"
proof -
  obtain rs upd where s: "s = (rs, upd)" by (cases s) auto
  from assms obtain t where
    fe: "for_each (relaxLink i dest) links (rs, getPathCost (rs ! i) dest, -1, upd) = Inr t"
    and s': "fst s' = fst t"
    by (auto simp: scanDest_def s split: sum.splits)
  have "length (fst t) = length rs"
  proof (rule for_each_preserves[where f = "relaxLink i dest" and xs = links
        and Inv = "\<lambda>t. length (fst t) = length rs"])
    show "length (fst u) = length rs \<Longrightarrow> relaxLink i dest x u = Inr u'
            \<Longrightarrow> length (fst u') = length rs" for x u u'
      using relaxLink_length[of i dest x u u'] by simp
    show "length (fst (rs, getPathCost (rs ! i) dest, -1 :: int, upd)) = length rs" by simp
    show "for_each (relaxLink i dest) links (rs, getPathCost (rs ! i) dest, -1, upd) = Inr t"
      by (rule fe)
  qed
  with s' show ?thesis by (simp add: s)
qed

lemma for_each_scanDest_length:
  assumes "for_each (scanDest links i) ds s = Inr s'"
  shows "length (fst s') = length (fst s)"
proof (rule for_each_preserves[where f = "scanDest links i" and xs = ds
      and Inv = "\<lambda>t. length (fst t) = length (fst s)"])
  show "length (fst u) = length (fst s) \<Longrightarrow> scanDest links i x u = Inr u'
          \<Longrightarrow> length (fst u') = length (fst s)" for x u u'
    using scanDest_length[of links i x u u'] by simp
  show "length (fst s) = length (fst s)" by simp
  show "for_each (scanDest links i) ds s = Inr s'" by (rule assms)
qed

lemma for_each_scanRouter_length:
  assumes "for_each (scanRouter nodes links) is s = Inr s'"
  shows "length (fst s') = length (fst s)"
proof (rule for_each_preserves[where f = "scanRouter nodes links" and xs = "is"
      and Inv = "\<lambda>t. length (fst t) = length (fst s)"])
  show "length (fst u) = length (fst s) \<Longrightarrow> scanRouter nodes links x u = Inr u'
          \<Longrightarrow> length (fst u') = length (fst s)" for x u u'
    using for_each_scanDest_length[of links x nodes u u'] by (simp add: scanRouter_def)
  show "length (fst s) = length (fst s)" by simp
  show "for_each (scanRouter nodes links) is s = Inr s'" by (rule assms)
qed

lemma scan_loop_inv:
  assumes run: "for_each (relaxLink i dest) ls (rs0, getPathCost (rs0 ! i) dest, -1, upd0)
                  = Inr (rs, cur, nnh, upd)"
    and i: "i < length rs0"
  shows "i < length rs \<and> cur = getPathCost (rs ! i) dest
         \<and> (nnh = -1 \<or> nnh = getNextHop (rs ! i) dest)"
proof -
  define Inv :: "Router list \<times> int \<times> int \<times> bool \<Rightarrow> bool" where
    "Inv = (\<lambda>(rs, cur, nnh, upd). i < length rs \<and> cur = getPathCost (rs ! i) dest
              \<and> (nnh = -1 \<or> nnh = getNextHop (rs ! i) dest))"
  have "Inv (rs, cur, nnh, upd)"
  proof (rule for_each_preserves[where f = "relaxLink i dest" and xs = ls and Inv = Inv])
    fix x :: Link and u u' :: "Router list \<times> int \<times> int \<times> bool"
    assume u: "Inv u" and step: "relaxLink i dest x u = Inr u'"
    obtain r c n b where uu: "u = (r, c, n, b)" by (cases u) auto
    from u step show "Inv u'"
      unfolding uu Inv_def
      by (auto simp: Let_def getPathCost_addRoute getNextHop_addRoute split: sum.splits if_splits)
  next
    show "Inv (rs0, getPathCost (rs0 ! i) dest, -1, upd0)" using i by (simp add: Inv_def)
  next
    show "for_each (relaxLink i dest) ls (rs0, getPathCost (rs0 ! i) dest, -1, upd0)
            = Inr (rs, cur, nnh, upd)" by (rule run)
  qed
  then show ?thesis by (simp add: Inv_def)
qed

lemma relaxLink_survivor:
  assumes "i < length rs"
    and "neighbourOf (getID (rs ! i)) link = N" and "N \<noteq> -1" and "N \<noteq> dest"
    and "getRouterByID rs N = Inr j"
    and "getNextHop (rs ! j) dest \<noteq> getID (rs ! i)"
    and "getPathCost (rs ! i) N = pathCost link"
    and "relaxLink i dest link (rs, cur, nnh, upd) = Inr s'"
  shows "s' = (if pathCost link + getPathCost (rs ! j) dest < cur
                  \<or> (pathCost link + getPathCost (rs ! j) dest = cur \<and> N < nnh)
               then (rs[i := addRoute dest N (pathCost link + getPathCost (rs ! j) dest) (rs ! i)],
                     pathCost link + getPathCost (rs ! j) dest, N, True)
               else (rs, cur, nnh, upd))"
  using assms by (auto simp: Let_def split: if_splits)

text \<open>
  C1, as the code has it by design. Take a pass that completes, a router \<open>R\<close> at position
  \<open>i\<close>, an occurrence of a destination in the node ids and an occurrence of a link in the
  link list. The pass reaches that link in the scan of \<open>R\<close> for the destination, and there
  \<^verbatim>\<open>curPathCost\<close> is \<open>R\<close>'s current table cost to the destination and
  \<^verbatim>\<open>newNextHop\<close> is \<open>-1\<close> or \<open>R\<close>'s current next hop to the destination. If the
  neighbour \<open>N\<close> of the link passes the filters (\<open>N\<close> is not \<open>-1\<close>, not the destination,
  and \<open>N\<close>'s next hop to the destination is not \<open>R\<close>) and \<open>R\<close>'s table entry for \<open>N\<close>
  holds the cost of the link, as the seeding leaves it, then the candidate cost is the cost
  of the link plus \<open>N\<close>'s current table cost to the destination, and \<open>R\<close> adopts
  (\<open>N\<close>, candidate) exactly when the candidate is below \<open>R\<close>'s current cost to the
  destination, or equal to it with \<open>N\<close> below \<^verbatim>\<open>newNextHop\<close>. Nothing is stated about
  a step at which \<open>R\<close>'s entry for \<open>N\<close> no longer holds the cost of the link.
\<close>

theorem sweep_step:
  assumes "sweep routers nodes links = Inr res"
    and "i < length routers"
    and "nodes = dpre @ dest # dpost"
    and "links = lpre @ link # lpost"
  shows "\<exists>st1 rs2 upd2 rs cur nnh upd s'.
      for_each (scanRouter nodes links) [0..<i] (routers, False) = Inr st1
    \<and> for_each (scanDest links i) dpre st1 = Inr (rs2, upd2)
    \<and> for_each (relaxLink i dest) lpre (rs2, getPathCost (rs2 ! i) dest, -1, upd2)
        = Inr (rs, cur, nnh, upd)
    \<and> relaxLink i dest link (rs, cur, nnh, upd) = Inr s'
    \<and> cur = getPathCost (rs ! i) dest
    \<and> (nnh = -1 \<or> nnh = getNextHop (rs ! i) dest)
    \<and> (\<forall>N j. neighbourOf (getID (rs ! i)) link = N \<and> N \<noteq> -1 \<and> N \<noteq> dest
            \<and> getRouterByID rs N = Inr j \<and> getNextHop (rs ! j) dest \<noteq> getID (rs ! i)
            \<and> getPathCost (rs ! i) N = pathCost link \<longrightarrow>
          s' = (if pathCost link + getPathCost (rs ! j) dest < getPathCost (rs ! i) dest
                   \<or> (pathCost link + getPathCost (rs ! j) dest = getPathCost (rs ! i) dest
                       \<and> N < nnh)
                then (rs[i := addRoute dest N (pathCost link + getPathCost (rs ! j) dest) (rs ! i)],
                      pathCost link + getPathCost (rs ! j) dest, N, True)
                else (rs, cur, nnh, upd))
        \<and> (pathCost link + getPathCost (rs ! j) dest < getPathCost (rs ! i) dest
               \<or> (pathCost link + getPathCost (rs ! j) dest = getPathCost (rs ! i) dest
                   \<and> N < nnh) \<longrightarrow>
             getNextHop (fst s' ! i) dest = N
           \<and> getPathCost (fst s' ! i) dest = pathCost link + getPathCost (rs ! j) dest))"
proof -
  from assms(1,2) have "for_each (scanRouter nodes links) ([0..<i] @ i # [Suc i..<length routers])
                          (routers, False) = Inr res"
    by (simp add: sweep_def flip: upt_split)
  from for_each_split[OF this] obtain st1 st2 where
    st1: "for_each (scanRouter nodes links) [0..<i] (routers, False) = Inr st1"
    and st2: "scanRouter nodes links i st1 = Inr st2"
    by blast
  from for_each_scanRouter_length[OF st1] assms(2) have l1: "i < length (fst st1)" by simp
  from st2 assms(3) have "for_each (scanDest links i) (dpre @ dest # dpost) st1 = Inr st2"
    by (simp add: scanRouter_def)
  from for_each_split[OF this] obtain sa sb where
    sa: "for_each (scanDest links i) dpre st1 = Inr sa"
    and sb: "scanDest links i dest sa = Inr sb"
    by blast
  obtain rs2 upd2 where sa2: "sa = (rs2, upd2)" by (cases sa) auto
  from for_each_scanDest_length[OF sa] l1 have l2: "i < length rs2" by (simp add: sa2)
  from sb assms(4) obtain t where
    "for_each (relaxLink i dest) (lpre @ link # lpost) (rs2, getPathCost (rs2 ! i) dest, -1, upd2)
       = Inr t"
    by (auto simp: scanDest_def sa2 split: sum.splits)
  from for_each_split[OF this] obtain s3 s' where
    s3: "for_each (relaxLink i dest) lpre (rs2, getPathCost (rs2 ! i) dest, -1, upd2) = Inr s3"
    and s': "relaxLink i dest link s3 = Inr s'"
    by blast
  obtain rs cur nnh upd where s3e: "s3 = (rs, cur, nnh, upd)" by (cases s3) auto
  from scan_loop_inv[OF s3[unfolded s3e] l2] have
    li: "i < length rs" and cur: "cur = getPathCost (rs ! i) dest"
    and nnh: "nnh = -1 \<or> nnh = getNextHop (rs ! i) dest"
    by auto
  have step: "s' = (if pathCost link + getPathCost (rs ! j) dest < getPathCost (rs ! i) dest
                   \<or> (pathCost link + getPathCost (rs ! j) dest = getPathCost (rs ! i) dest
                       \<and> N < nnh)
                then (rs[i := addRoute dest N (pathCost link + getPathCost (rs ! j) dest) (rs ! i)],
                      pathCost link + getPathCost (rs ! j) dest, N, True)
                else (rs, cur, nnh, upd))"
    if "neighbourOf (getID (rs ! i)) link = N" "N \<noteq> -1" "N \<noteq> dest"
      "getRouterByID rs N = Inr j" "getNextHop (rs ! j) dest \<noteq> getID (rs ! i)"
      "getPathCost (rs ! i) N = pathCost link" for N j
    using relaxLink_survivor[OF li that s'[unfolded s3e]] cur by simp
  have entry: "getNextHop (fst s' ! i) dest = N
           \<and> getPathCost (fst s' ! i) dest = pathCost link + getPathCost (rs ! j) dest"
    if "neighbourOf (getID (rs ! i)) link = N" "N \<noteq> -1" "N \<noteq> dest"
      "getRouterByID rs N = Inr j" "getNextHop (rs ! j) dest \<noteq> getID (rs ! i)"
      "getPathCost (rs ! i) N = pathCost link"
      "pathCost link + getPathCost (rs ! j) dest < getPathCost (rs ! i) dest
               \<or> (pathCost link + getPathCost (rs ! j) dest = getPathCost (rs ! i) dest
                   \<and> N < nnh)" for N j
    using step[OF that(1-6)] that(7) li
    by (auto simp: getNextHop_addRoute getPathCost_addRoute)
  from st1 sa s3 s' cur nnh step entry show ?thesis
    unfolding sa2 s3e by blast
qed

theorem sweep_step_witness:
  "sweep [\<lparr>ID = 1, RT = [(1, 1, 0), (2, 2, 1), (3, 3, 1), (4, -1, 9999)]\<rparr>,
          \<lparr>ID = 2, RT = [(1, 1, 1), (2, 2, 0), (3, -1, 9999), (4, 4, 1)]\<rparr>,
          \<lparr>ID = 3, RT = [(1, 1, 1), (2, -1, 9999), (3, 3, 0), (4, 4, 1)]\<rparr>,
          \<lparr>ID = 4, RT = [(1, -1, 9999), (2, 2, 1), (3, 3, 1), (4, 4, 0)]\<rparr>]
     [1, 2, 3, 4] [mkLink 1 3 1, mkLink 1 2 1, mkLink 3 4 1, mkLink 2 4 1]
   = Inr ([\<lparr>ID = 1, RT = [(1, 1, 0), (2, 2, 1), (3, 3, 1), (4, 2, 2)]\<rparr>,
           \<lparr>ID = 2, RT = [(1, 1, 1), (2, 2, 0), (3, 1, 2), (4, 4, 1)]\<rparr>,
           \<lparr>ID = 3, RT = [(1, 1, 1), (2, 1, 2), (3, 3, 0), (4, 4, 1)]\<rparr>,
           \<lparr>ID = 4, RT = [(1, 2, 2), (2, 2, 1), (3, 3, 1), (4, 4, 0)]\<rparr>], True)
   \<and> relaxLink 0 4 (mkLink 1 2 1)
       ([\<lparr>ID = 1, RT = [(1, 1, 0), (2, 2, 1), (3, 3, 1), (4, 3, 2)]\<rparr>,
         \<lparr>ID = 2, RT = [(1, 1, 1), (2, 2, 0), (3, -1, 9999), (4, 4, 1)]\<rparr>,
         \<lparr>ID = 3, RT = [(1, 1, 1), (2, -1, 9999), (3, 3, 0), (4, 4, 1)]\<rparr>,
         \<lparr>ID = 4, RT = [(1, -1, 9999), (2, 2, 1), (3, 3, 1), (4, 4, 0)]\<rparr>], 2, 3, True)
     = Inr ([\<lparr>ID = 1, RT = [(1, 1, 0), (2, 2, 1), (3, 3, 1), (4, 2, 2)]\<rparr>,
             \<lparr>ID = 2, RT = [(1, 1, 1), (2, 2, 0), (3, -1, 9999), (4, 4, 1)]\<rparr>,
             \<lparr>ID = 3, RT = [(1, 1, 1), (2, -1, 9999), (3, 3, 0), (4, 4, 1)]\<rparr>,
             \<lparr>ID = 4, RT = [(1, -1, 9999), (2, 2, 1), (3, 3, 1), (4, 4, 0)]\<rparr>], 2, 2, True)"
proof -
  let ?ns = "[1, 2, 3, 4 :: int]"
  let ?ls = "[mkLink 1 3 1, mkLink 1 2 1, mkLink 3 4 1, mkLink 2 4 1]"
  let ?r0 = "[\<lparr>ID = 1, RT = [(1, 1, 0), (2, 2, 1), (3, 3, 1), (4, -1, 9999)]\<rparr>,
          \<lparr>ID = 2, RT = [(1, 1, 1), (2, 2, 0), (3, -1, 9999), (4, 4, 1)]\<rparr>,
          \<lparr>ID = 3, RT = [(1, 1, 1), (2, -1, 9999), (3, 3, 0), (4, 4, 1)]\<rparr>,
          \<lparr>ID = 4, RT = [(1, -1, 9999), (2, 2, 1), (3, 3, 1), (4, 4, 0)]\<rparr>]"
  let ?rA = "[\<lparr>ID = 1, RT = [(1, 1, 0), (2, 2, 1), (3, 3, 1), (4, 3, 2)]\<rparr>,
         \<lparr>ID = 2, RT = [(1, 1, 1), (2, 2, 0), (3, -1, 9999), (4, 4, 1)]\<rparr>,
         \<lparr>ID = 3, RT = [(1, 1, 1), (2, -1, 9999), (3, 3, 0), (4, 4, 1)]\<rparr>,
         \<lparr>ID = 4, RT = [(1, -1, 9999), (2, 2, 1), (3, 3, 1), (4, 4, 0)]\<rparr>]"
  let ?rB = "[\<lparr>ID = 1, RT = [(1, 1, 0), (2, 2, 1), (3, 3, 1), (4, 2, 2)]\<rparr>,
             \<lparr>ID = 2, RT = [(1, 1, 1), (2, 2, 0), (3, -1, 9999), (4, 4, 1)]\<rparr>,
             \<lparr>ID = 3, RT = [(1, 1, 1), (2, -1, 9999), (3, 3, 0), (4, 4, 1)]\<rparr>,
             \<lparr>ID = 4, RT = [(1, -1, 9999), (2, 2, 1), (3, 3, 1), (4, 4, 0)]\<rparr>]"
  have sw: "sweep ?r0 ?ns ?ls
     = Inr ([\<lparr>ID = 1, RT = [(1, 1, 0), (2, 2, 1), (3, 3, 1), (4, 2, 2)]\<rparr>,
           \<lparr>ID = 2, RT = [(1, 1, 1), (2, 2, 0), (3, 1, 2), (4, 4, 1)]\<rparr>,
           \<lparr>ID = 3, RT = [(1, 1, 1), (2, 1, 2), (3, 3, 0), (4, 4, 1)]\<rparr>,
           \<lparr>ID = 4, RT = [(1, 2, 2), (2, 2, 1), (3, 3, 1), (4, 4, 0)]\<rparr>], True)"
    by code_simp
  have len: "0 < length ?r0" by simp
  have dn: "?ns = [1, 2, 3] @ 4 # []" by simp
  have dl: "?ls = [mkLink 1 3 1] @ mkLink 1 2 1 # [mkLink 3 4 1, mkLink 2 4 1]" by simp
  have e2: "for_each (scanDest ?ls 0) [1, 2, 3] (?r0, False) = Inr (?r0, False)" by code_simp
  have e3: "for_each (relaxLink 0 4) [mkLink 1 3 1] (?r0, getPathCost (?r0 ! 0) 4, -1, False)
              = Inr (?rA, 2, 3, True)"
    by code_simp
  have f1: "neighbourOf (getID (?rA ! 0)) (mkLink 1 2 1) = 2" by code_simp
  have f2: "getRouterByID ?rA 2 = Inr 1" by code_simp
  have f3: "getNextHop (?rA ! 1) 4 \<noteq> getID (?rA ! 0)" by code_simp
  have f4: "getPathCost (?rA ! 0) 2 = pathCost (mkLink 1 2 1)" by code_simp
  have f5: "pathCost (mkLink 1 2 1) + getPathCost (?rA ! 1) 4 = 2" by code_simp
  have f6: "getPathCost (?rA ! 0) 4 = 2" by code_simp
  have f7: "?rA[0 := addRoute 4 2 2 (?rA ! 0)] = ?rB" by code_simp
  from sweep_step[OF sw len dn dl] obtain st1 rs2 upd2 rs cur nnh upd s' where
    a1: "for_each (scanRouter ?ns ?ls) [0..<0] (?r0, False) = Inr st1"
    and a2: "for_each (scanDest ?ls 0) [1, 2, 3] st1 = Inr (rs2, upd2)"
    and a3: "for_each (relaxLink 0 4) [mkLink 1 3 1] (rs2, getPathCost (rs2 ! 0) 4, -1, upd2)
               = Inr (rs, cur, nnh, upd)"
    and a4: "relaxLink 0 4 (mkLink 1 2 1) (rs, cur, nnh, upd) = Inr s'"
    and a5: "\<forall>N j. neighbourOf (getID (rs ! 0)) (mkLink 1 2 1) = N \<and> N \<noteq> -1 \<and> N \<noteq> 4
            \<and> getRouterByID rs N = Inr j \<and> getNextHop (rs ! j) 4 \<noteq> getID (rs ! 0)
            \<and> getPathCost (rs ! 0) N = pathCost (mkLink 1 2 1) \<longrightarrow>
          s' = (if pathCost (mkLink 1 2 1) + getPathCost (rs ! j) 4 < getPathCost (rs ! 0) 4
                   \<or> (pathCost (mkLink 1 2 1) + getPathCost (rs ! j) 4 = getPathCost (rs ! 0) 4
                       \<and> N < nnh)
                then (rs[0 := addRoute 4 N (pathCost (mkLink 1 2 1) + getPathCost (rs ! j) 4) (rs ! 0)],
                      pathCost (mkLink 1 2 1) + getPathCost (rs ! j) 4, N, True)
                else (rs, cur, nnh, upd))"
    by blast
  from a1 have st1: "st1 = (?r0, False)" by simp
  from a2 e2 have rs2: "rs2 = ?r0" "upd2 = False" unfolding st1 by simp_all
  from a3 e3 have rs: "rs = ?rA" "cur = 2" "nnh = 3" "upd = True" unfolding rs2 by simp_all
  from a5[rule_format, of 2 1] f1 f2 f3 f4 have
    "s' = (if pathCost (mkLink 1 2 1) + getPathCost (?rA ! 1) 4 < getPathCost (?rA ! 0) 4
                   \<or> (pathCost (mkLink 1 2 1) + getPathCost (?rA ! 1) 4 = getPathCost (?rA ! 0) 4
                       \<and> (2::int) < 3)
                then (?rA[0 := addRoute 4 2 (pathCost (mkLink 1 2 1) + getPathCost (?rA ! 1) 4) (?rA ! 0)],
                      pathCost (mkLink 1 2 1) + getPathCost (?rA ! 1) 4, 2, True)
                else (?rA, 2, 3, True))"
    unfolding rs by simp
  then have "s' = (?rB, 2, 2, True)"
    unfolding f5 f6 f7 by simp
  with a4 have "relaxLink 0 4 (mkLink 1 2 1) (?rA, 2, 3, True) = Inr (?rB, 2, 2, True)"
    unfolding rs by simp
  with sw show ?thesis by simp
qed

text \<open>
  The claim as written fails twice. With the links \<open>1 3 5\<close>, \<open>1 2 1\<close>, \<open>2 3 1\<close>,
  \<open>3 4 1\<close>, router 1 has learnt the route to 3 through 2 at cost 2 when it scans
  destination 4 in the first pass: over the link \<open>1 3 5\<close> it adopts (3, 3), where the
  cost of the link plus the cost from 3 to 4 is 6. With the links \<open>1 3 1\<close>, \<open>1 2 1\<close>,
  \<open>3 4 1\<close>, \<open>2 4 1\<close>, router 1 adopts (3, 2) for destination 4 and then, in the same
  scan, (2, 2): a candidate that is not below the current cost.
\<close>

theorem relaxLink_counterexample:
  "seedRouters [1, 2, 3, 4] [mkLink 1 3 5, mkLink 1 2 1, mkLink 2 3 1, mkLink 3 4 1]
     = Inr [\<lparr>ID = 1, RT = [(1, 1, 0), (2, 2, 1), (3, 3, 5), (4, -1, 9999)]\<rparr>,
            \<lparr>ID = 2, RT = [(1, 1, 1), (2, 2, 0), (3, 3, 1), (4, -1, 9999)]\<rparr>,
            \<lparr>ID = 3, RT = [(1, 1, 5), (2, 2, 1), (3, 3, 0), (4, 4, 1)]\<rparr>,
            \<lparr>ID = 4, RT = [(1, -1, 9999), (2, -1, 9999), (3, 3, 1), (4, 4, 0)]\<rparr>]
   \<and> for_each (scanDest [mkLink 1 3 5, mkLink 1 2 1, mkLink 2 3 1, mkLink 3 4 1] 0) [1, 2, 3]
     ([\<lparr>ID = 1, RT = [(1, 1, 0), (2, 2, 1), (3, 3, 5), (4, -1, 9999)]\<rparr>,
       \<lparr>ID = 2, RT = [(1, 1, 1), (2, 2, 0), (3, 3, 1), (4, -1, 9999)]\<rparr>,
       \<lparr>ID = 3, RT = [(1, 1, 5), (2, 2, 1), (3, 3, 0), (4, 4, 1)]\<rparr>,
       \<lparr>ID = 4, RT = [(1, -1, 9999), (2, -1, 9999), (3, 3, 1), (4, 4, 0)]\<rparr>], False)
   = Inr ([\<lparr>ID = 1, RT = [(1, 1, 0), (2, 2, 1), (3, 2, 2), (4, -1, 9999)]\<rparr>,
           \<lparr>ID = 2, RT = [(1, 1, 1), (2, 2, 0), (3, 3, 1), (4, -1, 9999)]\<rparr>,
           \<lparr>ID = 3, RT = [(1, 1, 5), (2, 2, 1), (3, 3, 0), (4, 4, 1)]\<rparr>,
           \<lparr>ID = 4, RT = [(1, -1, 9999), (2, -1, 9999), (3, 3, 1), (4, 4, 0)]\<rparr>], True)
   \<and> relaxLink 0 4 (mkLink 1 3 5)
       ([\<lparr>ID = 1, RT = [(1, 1, 0), (2, 2, 1), (3, 2, 2), (4, -1, 9999)]\<rparr>,
         \<lparr>ID = 2, RT = [(1, 1, 1), (2, 2, 0), (3, 3, 1), (4, -1, 9999)]\<rparr>,
         \<lparr>ID = 3, RT = [(1, 1, 5), (2, 2, 1), (3, 3, 0), (4, 4, 1)]\<rparr>,
         \<lparr>ID = 4, RT = [(1, -1, 9999), (2, -1, 9999), (3, 3, 1), (4, 4, 0)]\<rparr>], 9999, -1, True)
     = Inr ([\<lparr>ID = 1, RT = [(1, 1, 0), (2, 2, 1), (3, 2, 2), (4, 3, 3)]\<rparr>,
             \<lparr>ID = 2, RT = [(1, 1, 1), (2, 2, 0), (3, 3, 1), (4, -1, 9999)]\<rparr>,
             \<lparr>ID = 3, RT = [(1, 1, 5), (2, 2, 1), (3, 3, 0), (4, 4, 1)]\<rparr>,
             \<lparr>ID = 4, RT = [(1, -1, 9999), (2, -1, 9999), (3, 3, 1), (4, 4, 0)]\<rparr>], 3, 3, True)
   \<and> pathCost (mkLink 1 3 5)
       + getPathCost \<lparr>ID = 3, RT = [(1, 1, 5), (2, 2, 1), (3, 3, 0), (4, 4, 1)]\<rparr> 4 = 6
   \<and> seedRouters [1, 2, 3, 4] [mkLink 1 3 1, mkLink 1 2 1, mkLink 3 4 1, mkLink 2 4 1]
     = Inr [\<lparr>ID = 1, RT = [(1, 1, 0), (2, 2, 1), (3, 3, 1), (4, -1, 9999)]\<rparr>,
            \<lparr>ID = 2, RT = [(1, 1, 1), (2, 2, 0), (3, -1, 9999), (4, 4, 1)]\<rparr>,
            \<lparr>ID = 3, RT = [(1, 1, 1), (2, -1, 9999), (3, 3, 0), (4, 4, 1)]\<rparr>,
            \<lparr>ID = 4, RT = [(1, -1, 9999), (2, 2, 1), (3, 3, 1), (4, 4, 0)]\<rparr>]
   \<and> for_each (scanDest [mkLink 1 3 1, mkLink 1 2 1, mkLink 3 4 1, mkLink 2 4 1] 0) [1, 2, 3]
       ([\<lparr>ID = 1, RT = [(1, 1, 0), (2, 2, 1), (3, 3, 1), (4, -1, 9999)]\<rparr>,
         \<lparr>ID = 2, RT = [(1, 1, 1), (2, 2, 0), (3, -1, 9999), (4, 4, 1)]\<rparr>,
         \<lparr>ID = 3, RT = [(1, 1, 1), (2, -1, 9999), (3, 3, 0), (4, 4, 1)]\<rparr>,
         \<lparr>ID = 4, RT = [(1, -1, 9999), (2, 2, 1), (3, 3, 1), (4, 4, 0)]\<rparr>], False)
     = Inr ([\<lparr>ID = 1, RT = [(1, 1, 0), (2, 2, 1), (3, 3, 1), (4, -1, 9999)]\<rparr>,
             \<lparr>ID = 2, RT = [(1, 1, 1), (2, 2, 0), (3, -1, 9999), (4, 4, 1)]\<rparr>,
             \<lparr>ID = 3, RT = [(1, 1, 1), (2, -1, 9999), (3, 3, 0), (4, 4, 1)]\<rparr>,
             \<lparr>ID = 4, RT = [(1, -1, 9999), (2, 2, 1), (3, 3, 1), (4, 4, 0)]\<rparr>], False)
   \<and> relaxLink 0 4 (mkLink 1 3 1)
       ([\<lparr>ID = 1, RT = [(1, 1, 0), (2, 2, 1), (3, 3, 1), (4, -1, 9999)]\<rparr>,
         \<lparr>ID = 2, RT = [(1, 1, 1), (2, 2, 0), (3, -1, 9999), (4, 4, 1)]\<rparr>,
         \<lparr>ID = 3, RT = [(1, 1, 1), (2, -1, 9999), (3, 3, 0), (4, 4, 1)]\<rparr>,
         \<lparr>ID = 4, RT = [(1, -1, 9999), (2, 2, 1), (3, 3, 1), (4, 4, 0)]\<rparr>], 9999, -1, False)
     = Inr ([\<lparr>ID = 1, RT = [(1, 1, 0), (2, 2, 1), (3, 3, 1), (4, 3, 2)]\<rparr>,
             \<lparr>ID = 2, RT = [(1, 1, 1), (2, 2, 0), (3, -1, 9999), (4, 4, 1)]\<rparr>,
             \<lparr>ID = 3, RT = [(1, 1, 1), (2, -1, 9999), (3, 3, 0), (4, 4, 1)]\<rparr>,
             \<lparr>ID = 4, RT = [(1, -1, 9999), (2, 2, 1), (3, 3, 1), (4, 4, 0)]\<rparr>], 2, 3, True)
   \<and> relaxLink 0 4 (mkLink 1 2 1)
       ([\<lparr>ID = 1, RT = [(1, 1, 0), (2, 2, 1), (3, 3, 1), (4, 3, 2)]\<rparr>,
         \<lparr>ID = 2, RT = [(1, 1, 1), (2, 2, 0), (3, -1, 9999), (4, 4, 1)]\<rparr>,
         \<lparr>ID = 3, RT = [(1, 1, 1), (2, -1, 9999), (3, 3, 0), (4, 4, 1)]\<rparr>,
         \<lparr>ID = 4, RT = [(1, -1, 9999), (2, 2, 1), (3, 3, 1), (4, 4, 0)]\<rparr>], 2, 3, True)
     = Inr ([\<lparr>ID = 1, RT = [(1, 1, 0), (2, 2, 1), (3, 3, 1), (4, 2, 2)]\<rparr>,
             \<lparr>ID = 2, RT = [(1, 1, 1), (2, 2, 0), (3, -1, 9999), (4, 4, 1)]\<rparr>,
             \<lparr>ID = 3, RT = [(1, 1, 1), (2, -1, 9999), (3, 3, 0), (4, 4, 1)]\<rparr>,
             \<lparr>ID = 4, RT = [(1, -1, 9999), (2, 2, 1), (3, 3, 1), (4, 4, 0)]\<rparr>], 2, 2, True)"
  by code_simp

text \<open>
  The first of the two is a defect of the program and not a rule of the algorithm: the
  loop reads \<^verbatim>\<open>router.getPathCost(neighbourID)\<close> where the cost of the link is meant,
  and still records the neighbour as next hop. On the links \<open>1 3 5\<close>, \<open>1 2 1\<close>,
  \<open>2 3 1\<close>, \<open>3 4 1\<close> the converged table of router 1 sends destination 4 through 3 at
  cost 3, and the message from 1 to 4 is reported with cost 3 and hops 1, 3, while the
  links 1 to 3 and 3 to 4 cost 6 together.
\<close>

lemma table_cost_defect:
  "doBellmanFordAlg
     [\<lparr>ID = 1, RT = [(1, 1, 0), (2, 2, 1), (3, 3, 5), (4, -1, 9999)]\<rparr>,
      \<lparr>ID = 2, RT = [(1, 1, 1), (2, 2, 0), (3, 3, 1), (4, -1, 9999)]\<rparr>,
      \<lparr>ID = 3, RT = [(1, 1, 5), (2, 2, 1), (3, 3, 0), (4, 4, 1)]\<rparr>,
      \<lparr>ID = 4, RT = [(1, -1, 9999), (2, -1, 9999), (3, 3, 1), (4, 4, 0)]\<rparr>]
     [1, 2, 3, 4] [mkLink 1 3 5, mkLink 1 2 1, mkLink 2 3 1, mkLink 3 4 1]
   = Some (Inr [\<lparr>ID = 1, RT = [(1, 1, 0), (2, 2, 1), (3, 2, 2), (4, 3, 3)]\<rparr>,
                \<lparr>ID = 2, RT = [(1, 1, 1), (2, 2, 0), (3, 3, 1), (4, 3, 2)]\<rparr>,
                \<lparr>ID = 3, RT = [(1, 2, 2), (2, 2, 1), (3, 3, 0), (4, 4, 1)]\<rparr>,
                \<lparr>ID = 4, RT = [(1, 3, 3), (2, 3, 2), (3, 3, 1), (4, 4, 0)]\<rparr>])
   \<and> sendMessage
       [\<lparr>ID = 1, RT = [(1, 1, 0), (2, 2, 1), (3, 2, 2), (4, 3, 3)]\<rparr>,
        \<lparr>ID = 2, RT = [(1, 1, 1), (2, 2, 0), (3, 3, 1), (4, 3, 2)]\<rparr>,
        \<lparr>ID = 3, RT = [(1, 2, 2), (2, 2, 1), (3, 3, 0), (4, 4, 1)]\<rparr>,
        \<lparr>ID = 4, RT = [(1, 3, 3), (2, 3, 2), (3, 3, 1), (4, 4, 0)]\<rparr>]
       \<lparr>sourceID = 1, destinationID = 4, message = ''hello''\<rparr>
     = Some (Inr (Delivered 1 4 3 [1, 3] ''hello''))
   \<and> pathCost (mkLink 1 3 5) + pathCost (mkLink 3 4 1) = 6"
  by code_simp

end
